theory Spec2Isabelle
  imports Main "HOL-Library.Word"
begin

unbundle bit_operations_syntax

section \<open>Texts, byte arrays and machine integers\<close>

text \<open>
  A \<open>QString\<close> is a sequence of UTF-16 code units, a \<open>QByteArray\<close> a sequence of
  bytes.  \<open>u32\<close> and \<open>s32\<close> are 32-bit words; \<open>s32\<close> is read through \<open>sint\<close>.
\<close>

type_synonym qchar = "16 word"
type_synonym qstring = "qchar list"
type_synonym qbytearray = "8 word list"
type_synonym u32 = "32 word"
type_synonym s32 = "32 word"

text \<open>A text literal: every character of an Isabelle string as one code unit.\<close>

definition qstr :: "string \<Rightarrow> qstring" where
  "qstr s = map (\<lambda>c. of_nat (of_char c)) s"

section \<open>Library conversions used by the widget\<close>

subsection \<open>Text to integer (\<open>QString::toUInt\<close>, \<open>toInt\<close>, \<open>toShort\<close>, \<open>toUShort\<close>)\<close>

text \<open>
  The conversions follow the library's documented behaviour: white space around the number is
  ignored, an optional sign comes first (a minus sign is refused by the unsigned conversions),
  with base 16 an optional \<open>0x\<close> prefix is skipped, with base 0 the C convention selects the
  base (\<open>0x\<close>: 16, a leading \<open>0\<close>: 8, otherwise 10), at least one digit is needed, every
  remaining character must be a digit of the base, and the number must fit the result type.
  On failure the flag is false and the result is 0.
\<close>

definition ascii_isspace :: "qchar \<Rightarrow> bool" where
  "ascii_isspace c \<longleftrightarrow> c = 0x20 \<or> (0x09 \<le> c \<and> c \<le> 0x0D)"

definition trimmed :: "qstring \<Rightarrow> qstring" where
  "trimmed s = rev (dropWhile ascii_isspace (rev (dropWhile ascii_isspace s)))"

definition digit_of :: "qchar \<Rightarrow> nat option" where
  "digit_of c =
     (let n = unat c in
      if 48 \<le> n \<and> n \<le> 57 then Some (n - 48)
      else if 97 \<le> n \<and> n \<le> 122 then Some (n - 87)
      else if 65 \<le> n \<and> n \<le> 90 then Some (n - 55)
      else None)"

fun digits_to_nat :: "nat \<Rightarrow> nat \<Rightarrow> qstring \<Rightarrow> nat option" where
  "digits_to_nat b acc [] = Some acc"
| "digits_to_nat b acc (c # cs) =
     (case digit_of c of
        None \<Rightarrow> None
      | Some d \<Rightarrow> if d < b then digits_to_nat b (acc * b + d) cs else None)"

definition has_hex_prefix :: "qstring \<Rightarrow> bool" where
  "has_hex_prefix s =
     (case s of c1 # c2 # _ \<Rightarrow> c1 = 0x30 \<and> (c2 = 0x78 \<or> c2 = 0x58) | _ \<Rightarrow> False)"

definition parse_magnitude :: "nat \<Rightarrow> qstring \<Rightarrow> nat option" where
  "parse_magnitude base s =
     (let (b, ds) =
            (if (base = 0 \<or> base = 16) \<and> has_hex_prefix s then (16, drop 2 s)
             else if base = 0 then (if take 1 s = [0x30] then (8, s) else (10, s))
             else (base, s))
      in if ds = [] then None else digits_to_nat b 0 ds)"

definition qstrtoll :: "qstring \<Rightarrow> nat \<Rightarrow> int option" where
  "qstrtoll s base =
     (case trimmed s of
        [] \<Rightarrow> None
      | c # cs \<Rightarrow>
          if c = 0x2D then map_option (\<lambda>n. - int n) (parse_magnitude base cs)
          else if c = 0x2B then map_option int (parse_magnitude base cs)
          else map_option int (parse_magnitude base (c # cs)))"

definition qstrtoull :: "qstring \<Rightarrow> nat \<Rightarrow> int option" where
  "qstrtoull s base =
     (case trimmed s of
        [] \<Rightarrow> None
      | c # cs \<Rightarrow>
          if c = 0x2D then None
          else if c = 0x2B then map_option int (parse_magnitude base cs)
          else map_option int (parse_magnitude base (c # cs)))"

definition toUInt :: "qstring \<Rightarrow> nat \<Rightarrow> bool \<times> u32" where
  "toUInt s base =
     (case qstrtoull s base of
        None \<Rightarrow> (False, 0)
      | Some v \<Rightarrow> if v < 2 ^ 32 then (True, word_of_int v) else (False, 0))"

definition toInt :: "qstring \<Rightarrow> nat \<Rightarrow> bool \<times> s32" where
  "toInt s base =
     (case qstrtoll s base of
        None \<Rightarrow> (False, 0)
      | Some v \<Rightarrow> if - (2 ^ 31) \<le> v \<and> v < 2 ^ 31 then (True, word_of_int v) else (False, 0))"

definition toUShort :: "qstring \<Rightarrow> nat \<Rightarrow> bool \<times> 16 word" where
  "toUShort s base =
     (case qstrtoull s base of
        None \<Rightarrow> (False, 0)
      | Some v \<Rightarrow> if v < 2 ^ 16 then (True, word_of_int v) else (False, 0))"

definition toShort :: "qstring \<Rightarrow> nat \<Rightarrow> bool \<times> 16 word" where
  "toShort s base =
     (case qstrtoll s base of
        None \<Rightarrow> (False, 0)
      | Some v \<Rightarrow> if - (2 ^ 15) \<le> v \<and> v < 2 ^ 15 then (True, word_of_int v) else (False, 0))"

subsection \<open>Text to floating point (\<open>QString::toFloat\<close>, \<open>toDouble\<close>)\<close>

text \<open>
  These conversions read a decimal numeral, with the white space around it ignored: an
  optional sign, decimal digits with an optional point, an optional exponent after \<open>e\<close> or
  \<open>E\<close>; they also read the names \<open>inf\<close> and \<open>nan\<close>, which both contain the
  letter \<open>n\<close>.  Only this much of them is modelled: a text with a character that
  occurs in none of these is refused; for every other text the flag and the bit pattern of
  the number are those of a parameter \<open>conv\<close>.
\<close>

definition is_float_char :: "qchar \<Rightarrow> bool" where
  "is_float_char c \<longleftrightarrow>
     (0x30 \<le> c \<and> c \<le> 0x39) \<or> c = 0x2B \<or> c = 0x2D \<or> c = 0x2E \<or> c = 0x65 \<or> c = 0x45"

definition float_text :: "qstring \<Rightarrow> bool" where
  "float_text s \<longleftrightarrow> list_all is_float_char (trimmed s) \<or> 0x6E \<in> set s \<or> 0x4E \<in> set s"

definition QString_toFloat ::
  "(qstring \<Rightarrow> bool \<times> 'a::len word) \<Rightarrow> qstring \<Rightarrow> bool \<times> 'a word" where
  "QString_toFloat conv s = (if float_text s then conv s else (False, 0))"

subsection \<open>Integer to hexadecimal text (\<open>QString::arg\<close>, \<open>fmt::format\<close>, \<open>fmt::sprintf\<close>)\<close>

definition hex_digit_char :: "bool \<Rightarrow> nat \<Rightarrow> 'a::len word" where
  "hex_digit_char upper d =
     (if d < 10 then of_nat (48 + d) else if upper then of_nat (55 + d) else of_nat (87 + d))"

fun hex_digits :: "bool \<Rightarrow> nat \<Rightarrow> qstring" where
  "hex_digits upper n =
     (if n < 16 then [hex_digit_char upper n]
      else hex_digits upper (n div 16) @ [hex_digit_char upper (n mod 16)])"

declare hex_digits.simps [simp del]

text \<open>At least \<open>width\<close> characters, filled with \<open>0\<close> on the left.\<close>

definition format_hex :: "bool \<Rightarrow> nat \<Rightarrow> nat \<Rightarrow> qstring" where
  "format_hex upper width n =
     replicate (width - length (hex_digits upper n)) 0x30 @ hex_digits upper n"

subsection \<open>Text to bytes and back (\<open>toLatin1\<close>, \<open>toUtf8\<close>, \<open>toHex\<close>, \<open>fromHex\<close>)\<close>

text \<open>\<open>QString::toLatin1\<close>: a code unit above \<open>0xFF\<close> becomes a question mark.\<close>

definition toLatin1 :: "qstring \<Rightarrow> qbytearray" where
  "toLatin1 s = map (\<lambda>c. if c \<le> 0xFF then ucast c else 0x3F) s"

definition fromLatin1 :: "qbytearray \<Rightarrow> qstring" where
  "fromLatin1 bs = map ucast bs"

definition is_high_surrogate :: "qchar \<Rightarrow> bool" where
  "is_high_surrogate c \<longleftrightarrow> 0xD800 \<le> c \<and> c \<le> 0xDBFF"

definition is_low_surrogate :: "qchar \<Rightarrow> bool" where
  "is_low_surrogate c \<longleftrightarrow> 0xDC00 \<le> c \<and> c \<le> 0xDFFF"

text \<open>The UTF-8 bytes of one code point.\<close>

definition utf8_of_code_point :: "nat \<Rightarrow> qbytearray" where
  "utf8_of_code_point n =
     (if n < 0x80 then [of_nat n]
      else if n < 0x800 then [of_nat (0xC0 + n div 64), of_nat (0x80 + n mod 64)]
      else if n < 0x10000 then
        [of_nat (0xE0 + n div 4096), of_nat (0x80 + n div 64 mod 64), of_nat (0x80 + n mod 64)]
      else
        [of_nat (0xF0 + n div 262144), of_nat (0x80 + n div 4096 mod 64),
         of_nat (0x80 + n div 64 mod 64), of_nat (0x80 + n mod 64)])"

text \<open>
  \<open>QString::toUtf8\<close>: a surrogate pair is one code point; a surrogate without its partner
  is an encoding error, for which the library writes a question mark.
\<close>

fun toUtf8 :: "qstring \<Rightarrow> qbytearray" where
  "toUtf8 [] = []"
| "toUtf8 [c] =
     (if is_high_surrogate c \<or> is_low_surrogate c then [0x3F]
      else utf8_of_code_point (unat c))"
| "toUtf8 (c # d # cs) =
     (if is_high_surrogate c then
        (if is_low_surrogate d
         then utf8_of_code_point (0x10000 + (unat c - 0xD800) * 1024 + (unat d - 0xDC00))
              @ toUtf8 cs
         else 0x3F # toUtf8 (d # cs))
      else if is_low_surrogate c then 0x3F # toUtf8 (d # cs)
      else utf8_of_code_point (unat c) @ toUtf8 (d # cs))"

text \<open>\<open>QByteArray::toHex\<close>: two lower-case digits for each byte.\<close>

definition toHex :: "qbytearray \<Rightarrow> qbytearray" where
  "toHex bs =
     concat (map (\<lambda>b. [hex_digit_char False (unat b div 16),
                         hex_digit_char False (unat b mod 16)]) bs)"

text \<open>
  \<open>QByteArray::fromHex\<close> reads its input from the end: a character that is not a
  hexadecimal digit is skipped, the first digit met is the low half of the last byte, the next
  one its high half, and so on.
\<close>

definition fromHex_digit :: "8 word \<Rightarrow> nat option" where
  "fromHex_digit ch =
     (let n = unat ch in
      if 48 \<le> n \<and> n \<le> 57 then Some (n - 48)
      else if 65 \<le> n \<and> n \<le> 70 then Some (n - 55)
      else if 97 \<le> n \<and> n \<le> 102 then Some (n - 87)
      else None)"

fun fromHex_loop :: "qbytearray \<Rightarrow> bool \<Rightarrow> qbytearray \<Rightarrow> qbytearray" where
  "fromHex_loop [] odd_digit res = res"
| "fromHex_loop (ch # rest) odd_digit res =
     (case fromHex_digit ch of
        None \<Rightarrow> fromHex_loop rest odd_digit res
      | Some tmp \<Rightarrow>
          if odd_digit then fromHex_loop rest False (of_nat tmp # res)
          else (case res of
                  [] \<Rightarrow> fromHex_loop rest True res
                | r # rs \<Rightarrow> fromHex_loop rest True ((r OR push_bit 4 (of_nat tmp)) # rs)))"

definition fromHex :: "qbytearray \<Rightarrow> qbytearray" where
  "fromHex hexEncoded = fromHex_loop (rev hexEncoded) True []"

subsection \<open>The pattern \<open>^([0-9A-F]{2})*$\<close>, matched without regard to case\<close>

definition is_hex_char :: "qchar \<Rightarrow> bool" where
  "is_hex_char c \<longleftrightarrow>
     (0x30 \<le> c \<and> c \<le> 0x39) \<or> (0x41 \<le> c \<and> c \<le> 0x46) \<or> (0x61 \<le> c \<and> c \<le> 0x66)"

fun hex_pairs :: "qstring \<Rightarrow> bool" where
  "hex_pairs [] = True"
| "hex_pairs [c] = False"
| "hex_pairs (c # d # cs) = (is_hex_char c \<and> is_hex_char d \<and> hex_pairs cs)"

text \<open>The dollar sign matches at the end of the text and before a line feed that ends it.\<close>

definition is_hex_hasMatch :: "qstring \<Rightarrow> bool" where
  "is_hex_hasMatch s \<longleftrightarrow>
     hex_pairs s \<or> (s \<noteq> [] \<and> last s = 0x0A \<and> hex_pairs (butlast s))"

section \<open>The widget\<close>

datatype InputID = S8 | S16 | S32 | U8 | U16 | U32 | HEXSTR | FLOAT | DOUBLE | ASCII

record TargetAddress =
  address :: u32
  is_good_address :: bool
  is_good_offset :: bool

text \<open>The widgets' contents that the modelled member functions read and write.\<close>

record MemoryWidget =
  m_search_address :: qstring
  m_search_offset :: qstring
  m_data_edit :: qstring
  m_data_edit_bold_red :: bool
  m_base_check_checked :: bool
  m_base_check_enabled :: bool
  m_input_combo :: InputID
  m_data_preview :: qstring
  m_result_label :: string
  m_memory_view_address :: u32

subsection \<open>\<open>MemoryWidget::GetTargetAddress\<close>\<close>

definition s32_min :: s32 where
  "s32_min = 0x80000000"

definition s32_max :: s32 where
  "s32_max = 0x7FFFFFFF"

definition u32_max :: u32 where
  "u32_max = 0xFFFFFFFF"

definition GetTargetAddress :: "MemoryWidget \<Rightarrow> TargetAddress" where
  "GetTargetAddress w =
     (let (ok_address, addr) = toUInt (m_search_address w) 16;
          good_address = (ok_address \<or> m_search_address w = []);
          (ok_offset, offset) = toInt (m_search_offset w) 16;
          neg_offset = (if offset \<noteq> s32_min then - offset else s32_max + 1);
          good_offset1 = (ok_offset \<or> m_search_offset w = []);
          good_offset2 = (good_offset1 \<and> (word_sle 0 offset \<or> neg_offset \<le> addr));
          good_offset = (good_offset2 \<and> (word_sle offset 0 \<or> addr \<le> u32_max - offset))
      in if \<not> good_address \<or> \<not> good_offset
         then \<lparr>address = 0, is_good_address = good_address, is_good_offset = good_offset\<rparr>
         else if word_sless offset 0
         then \<lparr>address = addr - neg_offset, is_good_address = good_address,
               is_good_offset = good_offset\<rparr>
         else \<lparr>address = addr + offset, is_good_address = good_address,
               is_good_offset = good_offset\<rparr>)"


subsection \<open>\<open>MemoryWidget::ValidateAndPreviewInputValue\<close>\<close>

text \<open>
  The conversions of a text to a floating-point number are parameters: \<open>toFloat\<close> and
  \<open>toDouble\<close> give the flag of the conversion and the bit pattern of the number
  (\<open>Common::BitCast\<close> of the result).
\<close>

definition remove_spaces :: "qstring \<Rightarrow> qstring" where
  "remove_spaces s = filter (\<lambda>c. c \<noteq> 0x20) s"

text \<open>The \<open>switch\<close> over the selected type: the flag \<open>good\<close> and \<open>hex_string\<close>.\<close>

fun switch_combo_id ::
  "(qstring \<Rightarrow> bool \<times> 32 word) \<Rightarrow> (qstring \<Rightarrow> bool \<times> 64 word) \<Rightarrow>
   InputID \<Rightarrow> nat \<Rightarrow> qstring \<Rightarrow> bool \<times> qstring" where
  "switch_combo_id toFloat toDouble ASCII radix input_text =
     (True, fromLatin1 (toHex (toLatin1 input_text)))"
| "switch_combo_id toFloat toDouble FLOAT radix input_text =
     (let (good, hex_out) = toFloat input_text
      in if good then (True, format_hex True 8 (unat hex_out)) else (False, []))"
| "switch_combo_id toFloat toDouble DOUBLE radix input_text =
     (let (good, hex_out) = toDouble input_text
      in if good then (True, format_hex True 16 (unat hex_out)) else (False, []))"
| "switch_combo_id toFloat toDouble S8 radix input_text =
     (let (ok, v) = toShort input_text radix;
          good = (ok \<and> - 128 \<le> sint v \<and> sint v \<le> 127)
      in if good then (True, format_hex True 2 (unat (ucast v :: 8 word))) else (False, []))"
| "switch_combo_id toFloat toDouble S16 radix input_text =
     (let (good, v) = toShort input_text radix
      in if good then (True, format_hex True 4 (unat v)) else (False, []))"
| "switch_combo_id toFloat toDouble S32 radix input_text =
     (let (good, value_int) = toInt input_text radix
      in if good then (True, format_hex True 8 (unat value_int)) else (False, []))"
| "switch_combo_id toFloat toDouble U8 radix input_text =
     (let (ok, v) = toUShort input_text radix;
          good = (ok \<and> v AND 0xFF00 = 0)
      in if good then (True, format_hex True 2 (unat v)) else (False, []))"
| "switch_combo_id toFloat toDouble U16 radix input_text =
     (let (good, v) = toUShort input_text radix
      in if good then (True, format_hex True 4 (unat v)) else (False, []))"
| "switch_combo_id toFloat toDouble U32 radix input_text =
     (let (good, v) = toUInt input_text radix
      in if good then (True, format_hex True 8 (unat v)) else (False, []))"
| "switch_combo_id toFloat toDouble HEXSTR radix input_text =
     (if is_hex_hasMatch input_text
      then (True, fromLatin1 (toHex (fromHex (toUtf8 input_text))))
      else (False, []))"

text \<open>\<open>QString::insert\<close> at a position inside the text.\<close>

definition qinsert :: "nat \<Rightarrow> qchar \<Rightarrow> qstring \<Rightarrow> qstring" where
  "qinsert pos c s = take pos s @ c # drop pos s"

text \<open>The loop \<open>for (int i = 2; i < output_length; i += 2)\<close> that separates the bytes.\<close>

function insert_spaces :: "nat \<Rightarrow> nat \<Rightarrow> qstring \<Rightarrow> qstring" where
  "insert_spaces i output_length hex_string =
     (if i < output_length
      then insert_spaces (i + 2) output_length (qinsert (output_length - i) 0x20 hex_string)
      else hex_string)"
  by pat_completeness auto
termination
  by (relation "measure (\<lambda>(i, output_length, hex_string). output_length - i)") auto

declare insert_spaces.simps [simp del]

text \<open>The branch \<open>if (good)\<close>: cut after 16 characters, mark the cut, separate the bytes.\<close>

definition preview_of :: "qstring \<Rightarrow> qstring" where
  "preview_of hex_string =
     (if length hex_string > 16
      then (let truncated = take 16 hex_string
            in insert_spaces 2 (length truncated) (truncated @ qstr ''...''))
      else insert_spaces 2 (length hex_string) hex_string)"

text \<open>The types for which the check box of the base is enabled.\<close>

definition is_integer_type :: "InputID \<Rightarrow> bool" where
  "is_integer_type combo_id \<longleftrightarrow>
     combo_id = U32 \<or> combo_id = S32 \<or> combo_id = U16 \<or>
     combo_id = S16 \<or> combo_id = U8 \<or> combo_id = S8"

definition ValidateAndPreviewInputValue ::
  "(qstring \<Rightarrow> bool \<times> 32 word) \<Rightarrow> (qstring \<Rightarrow> bool \<times> 64 word) \<Rightarrow>
   MemoryWidget \<Rightarrow> MemoryWidget" where
  "ValidateAndPreviewInputValue toFloat toDouble w =
     (let combo_id = m_input_combo w;
          w1 = w\<lparr>m_data_preview := [], m_base_check_enabled := is_integer_type combo_id\<rparr>
      in if m_data_edit w1 = [] then w1
         else
           let input_text = (if combo_id \<noteq> ASCII then remove_spaces (m_data_edit w1)
                             else m_data_edit w1);
               radix = (if m_base_check_checked w1 \<and> m_base_check_enabled w1 then 16 else 0);
               (good, hex_string) = switch_combo_id toFloat toDouble combo_id radix input_text
           in if good
              then w1\<lparr>m_data_preview := preview_of hex_string, m_data_edit_bold_red := False\<rparr>
              else w1\<lparr>m_data_edit_bold_red := True\<rparr>)"

subsection \<open>\<open>MemoryWidget::GetInputData\<close>\<close>

definition GetInputData :: "MemoryWidget \<Rightarrow> qbytearray" where
  "GetInputData w =
     (if m_data_preview w = [] then []
      else if m_input_combo w = ASCII then toUtf8 (m_data_edit w)
      else if m_input_combo w = HEXSTR then fromHex (toUtf8 (m_data_edit w))
      else fromHex (toUtf8 (m_data_preview w)))"

subsection \<open>\<open>MemoryWidget::FindValue\<close>\<close>

text \<open>
  The search of the selected address space (\<open>AddressSpace::Accessors::Search\<close>) is a
  parameter: it takes the start address, the bytes looked for and the direction, and gives the
  address found, if any.
\<close>

definition FindValue ::
  "(u32 \<Rightarrow> qbytearray \<Rightarrow> bool \<Rightarrow> u32 option) \<Rightarrow> bool \<Rightarrow> MemoryWidget \<Rightarrow> MemoryWidget" where
  "FindValue Search next w =
     (let target_addr = GetTargetAddress w
      in if \<not> is_good_address target_addr then w\<lparr>m_result_label := ''Bad address provided.''\<rparr>
         else if \<not> is_good_offset target_addr then w\<lparr>m_result_label := ''Bad offset provided.''\<rparr>
         else
           let search_for = GetInputData w
           in if search_for = [] then w\<lparr>m_result_label := ''Bad Value Given''\<rparr>
              else
                let start = (if m_search_address w \<noteq> []
                             then address target_addr + (if next then 1 else - 1)
                             else address target_addr)
                in case Search start search_for next of
                     Some found \<Rightarrow>
                       w\<lparr>m_result_label := ''Match Found'',
                         m_search_address := format_hex False 8 (unat found),
                         m_search_offset := [],
                         m_memory_view_address := found\<rparr>
                   | None \<Rightarrow> w\<lparr>m_result_label := ''No Match''\<rparr>)"

section \<open>Notions used in the statements\<close>

text \<open>The characters of a lower-case hexadecimal number.\<close>

definition is_lower_hex_char :: "qchar \<Rightarrow> bool" where
  "is_lower_hex_char c \<longleftrightarrow> (0x30 \<le> c \<and> c \<le> 0x39) \<or> (0x61 \<le> c \<and> c \<le> 0x66)"


text \<open>No surrogate of the text stands without its partner.\<close>

fun surrogates_paired :: "qstring \<Rightarrow> bool" where
  "surrogates_paired [] = True"
| "surrogates_paired [c] = (\<not> is_high_surrogate c \<and> \<not> is_low_surrogate c)"
| "surrogates_paired (c # d # cs) =
     (if is_high_surrogate c then is_low_surrogate d \<and> surrogates_paired cs
      else \<not> is_low_surrogate c \<and> surrogates_paired (d # cs))"


text \<open>The \<open>j\<close> bytes of a number, most significant byte first.\<close>

fun be_bytes :: "nat \<Rightarrow> nat \<Rightarrow> qbytearray" where
  "be_bytes 0 n = []"
| "be_bytes (Suc j) n = be_bytes j (n div 256) @ [of_nat (n mod 256)]"

text \<open>The number of bytes of a value of a numeric type.\<close>

fun value_bytes :: "InputID \<Rightarrow> nat" where
  "value_bytes S8 = 1"
| "value_bytes U8 = 1"
| "value_bytes S16 = 2"
| "value_bytes U16 = 2"
| "value_bytes S32 = 4"
| "value_bytes U32 = 4"
| "value_bytes FLOAT = 4"
| "value_bytes DOUBLE = 8"
| "value_bytes _ = 0"

text \<open>The least number above the numbers of an integer type.\<close>

fun value_limit :: "InputID \<Rightarrow> nat" where
  "value_limit S8 = 128"
| "value_limit U8 = 256"
| "value_limit S16 = 32768"
| "value_limit U16 = 65536"
| "value_limit S32 = 2147483648"
| "value_limit U32 = 4294967296"
| "value_limit _ = 0"


section \<open>Concrete widgets for the examples\<close>

text \<open>The widget as it is created: every field empty, the check box unchecked.\<close>

definition initial_widget :: MemoryWidget where
  "initial_widget =
     \<lparr>m_search_address = [], m_search_offset = [], m_data_edit = [],
      m_data_edit_bold_red = False, m_base_check_checked = False, m_base_check_enabled = False,
      m_input_combo = HEXSTR, m_data_preview = [], m_result_label = [],
      m_memory_view_address = 0\<rparr>"

text \<open>A widget with an address and the validated unsigned 8-bit value \<open>1F\<close>.\<close>

definition found_widget :: MemoryWidget where
  "found_widget =
     initial_widget\<lparr>m_search_address := qstr ''80003000'', m_data_edit := qstr ''1F'',
       m_base_check_checked := True, m_base_check_enabled := True, m_input_combo := U8,
       m_data_preview := qstr ''1F''\<rparr>"

text \<open>Conversions to floating point that accept no text.\<close>

definition no_float :: "qstring \<Rightarrow> bool \<times> 32 word" where
  "no_float s = (False, 0)"

definition no_double :: "qstring \<Rightarrow> bool \<times> 64 word" where
  "no_double s = (False, 0)"

text \<open>
  Conversions to floating point that know one numeral only: \<open>3.14\<close> is the single-precision
  number with the bits \<open>4048F5C3\<close> and the double-precision number with the bits
  \<open>40091EB851EB851F\<close>.
\<close>

definition float_3_14 :: "qstring \<Rightarrow> bool \<times> 32 word" where
  "float_3_14 s = (if s = qstr ''3.14'' then (True, 0x4048F5C3) else (False, 0))"

definition double_3_14 :: "qstring \<Rightarrow> bool \<times> 64 word" where
  "double_3_14 s = (if s = qstr ''3.14'' then (True, 0x40091EB851EB851F) else (False, 0))"

section \<open>The search of a memory region\<close>









section \<open>Reading back a formatted number\<close>


lemma unat_hex_digit_char:
  "d < 16 \<Longrightarrow> 8 \<le> LENGTH('a) \<Longrightarrow> unat (hex_digit_char upper d :: 'a::len word) =
     (if d < 10 then 48 + d else if upper then 55 + d else 87 + d)"
proof -
  assume d: "d < 16" and l: "8 \<le> LENGTH('a)"
  have "(2::nat) ^ 8 \<le> 2 ^ LENGTH('a)" using l by (rule power_increasing) simp
  then have b: "(256::nat) \<le> 2 ^ LENGTH('a)" by simp
  have "\<And>n. n < 256 \<Longrightarrow> unat (of_nat n :: 'a word) = n"
    using b by (simp add: unat_of_nat)
  then show ?thesis using d by (simp add: hex_digit_char_def del: of_nat_add)
qed

lemma digit_of_hex_digit_char: "d < 16 \<Longrightarrow> digit_of (hex_digit_char upper d) = Some d"
  by (simp add: digit_of_def unat_hex_digit_char Let_def)

lemma hex_digit_char_not_space: "d < 16 \<Longrightarrow> \<not> ascii_isspace (hex_digit_char upper d :: qchar)"
proof -
  assume d: "d < 16"
  have "48 \<le> unat (hex_digit_char upper d :: qchar)" using d by (simp add: unat_hex_digit_char)
  then show ?thesis
    by (auto simp: ascii_isspace_def word_le_nat_alt)
qed

lemma digits_to_nat_append:
  "digits_to_nat b acc (xs @ ys) =
     (case digits_to_nat b acc xs of None \<Rightarrow> None | Some a \<Rightarrow> digits_to_nat b a ys)"
  by (induction xs arbitrary: acc) (auto split: option.splits)

lemma digits_to_nat_hex_digits:
  "digits_to_nat 16 acc (hex_digits upper n) = Some (acc * 16 ^ length (hex_digits upper n) + n)"
proof (induction upper n arbitrary: acc rule: hex_digits.induct)
  case (1 upper n)
  show ?case
  proof (cases "n < 16")
    case True
    then show ?thesis by (simp add: hex_digits.simps[of upper n] digit_of_hex_digit_char)
  next
    case False
    have m: "n mod 16 < 16" by simp
    show ?thesis
      using False "1.IH"[OF False] 
      by (simp add: hex_digits.simps[of upper n] digits_to_nat_append digit_of_hex_digit_char[OF m] algebra_simps)
  qed
qed


lemma is_hex_char_unat:
  "is_hex_char c \<longleftrightarrow> (48 \<le> unat c \<and> unat c \<le> 57) \<or> (65 \<le> unat c \<and> unat c \<le> 70) \<or>
     (97 \<le> unat c \<and> unat c \<le> 102)"
  by (simp add: is_hex_char_def word_le_nat_alt)

lemma is_hex_char_hex_digit_char: "d < 16 \<Longrightarrow> is_hex_char (hex_digit_char upper d)"
  by (simp add: is_hex_char_unat unat_hex_digit_char)

lemma is_hex_char_zero: "is_hex_char 0x30"
  by (simp add: is_hex_char_def)

lemma hex_digits_all_hex: "list_all is_hex_char (hex_digits upper n)"
proof (induction upper n rule: hex_digits.induct)
  case (1 upper n)
  show ?case
  proof (cases "n < 16")
    case True
    then show ?thesis by (simp add: hex_digits.simps[of upper n] is_hex_char_hex_digit_char)
  next
    case False
    then show ?thesis using "1.IH"
      by (simp add: hex_digits.simps[of upper n] is_hex_char_hex_digit_char)
  qed
qed

lemma hex_digits_nonempty: "hex_digits upper n \<noteq> []"
  by (subst hex_digits.simps) simp

lemma format_hex_all_hex: "list_all is_hex_char (format_hex upper width n)"
  using hex_digits_all_hex[of upper n] by (auto simp: format_hex_def list_all_iff is_hex_char_zero)

lemma format_hex_nonempty: "format_hex upper width n \<noteq> []"
  by (simp add: format_hex_def hex_digits_nonempty)

lemma is_hex_char_not_special:
  assumes "is_hex_char c"
  shows "\<not> ascii_isspace c" "c \<noteq> 0x2D" "c \<noteq> 0x2B" "c \<noteq> 0x78" "c \<noteq> 0x58" "c \<noteq> 0x20" "c \<noteq> 0x0A"
  using assms by (auto simp: is_hex_char_unat ascii_isspace_def word_le_nat_alt)

lemma dropWhile_hd: "s = [] \<or> \<not> P (hd s) \<Longrightarrow> dropWhile P s = s"
  by (cases s) auto

lemma trimmed_id:
  assumes "s \<noteq> []" "\<not> ascii_isspace (hd s)" "\<not> ascii_isspace (last s)"
  shows "trimmed s = s"
proof -
  have "dropWhile ascii_isspace s = s" using assms(2) by (simp add: dropWhile_hd)
  moreover have "dropWhile ascii_isspace (rev s) = rev s"
    using assms(1,3) by (simp add: dropWhile_hd hd_rev)
  ultimately show ?thesis by (simp add: trimmed_def)
qed

lemma trimmed_hex:
  assumes "list_all is_hex_char s"
  shows "trimmed s = s"
proof (cases "s = []")
  case True
  then show ?thesis by (simp add: trimmed_def)
next
  case False
  then have "hd s \<in> set s" "last s \<in> set s" by simp_all
  then have "is_hex_char (hd s)" "is_hex_char (last s)" using assms by (simp_all add: list_all_iff)
  then show ?thesis using False by (simp add: trimmed_id is_hex_char_not_special)
qed

lemma no_hex_prefix_hex:
  assumes "list_all is_hex_char s"
  shows "\<not> has_hex_prefix s"
  using assms by (auto simp: has_hex_prefix_def is_hex_char_def split: list.splits)

lemma parse_magnitude_hex:
  assumes "list_all is_hex_char s" "s \<noteq> []"
  shows "parse_magnitude 16 s = digits_to_nat 16 0 s"
  using assms no_hex_prefix_hex[OF assms(1)] by (simp add: parse_magnitude_def)

lemma qstrtoull_hex:
  assumes "list_all is_hex_char s" "s \<noteq> []"
  shows "qstrtoull s 16 = map_option int (digits_to_nat 16 0 s)"
proof -
  obtain c cs where s: "s = c # cs" using assms(2) by (cases s) auto
  have "is_hex_char c" using assms(1) s by simp
  then have "c \<noteq> 0x2D" "c \<noteq> 0x2B" by (simp_all add: is_hex_char_not_special)
  then show ?thesis
    using parse_magnitude_hex[OF assms] trimmed_hex[OF assms(1)] s
    by (simp add: qstrtoull_def)
qed

lemma qstrtoll_hex:
  assumes "list_all is_hex_char s" "s \<noteq> []"
  shows "qstrtoll s 16 = map_option int (digits_to_nat 16 0 s)"
proof -
  obtain c cs where s: "s = c # cs" using assms(2) by (cases s) auto
  have "is_hex_char c" using assms(1) s by simp
  then have "c \<noteq> 0x2D" "c \<noteq> 0x2B" by (simp_all add: is_hex_char_not_special)
  then show ?thesis
    using parse_magnitude_hex[OF assms] trimmed_hex[OF assms(1)] s
    by (simp add: qstrtoll_def)
qed

lemma digits_to_nat_zeros: "digits_to_nat 16 0 (replicate k 0x30) = Some 0"
  by (induction k) (simp_all add: digit_of_def)

lemma digits_to_nat_format_hex: "digits_to_nat 16 0 (format_hex upper width n) = Some n"
  by (simp add: format_hex_def digits_to_nat_append digits_to_nat_zeros digits_to_nat_hex_digits)

lemma qstrtoull_format_hex: "qstrtoull (format_hex upper width n) 16 = Some (int n)"
  by (simp add: qstrtoull_hex format_hex_all_hex format_hex_nonempty digits_to_nat_format_hex)

lemma qstrtoll_format_hex: "qstrtoll (format_hex upper width n) 16 = Some (int n)"
  by (simp add: qstrtoll_hex format_hex_all_hex format_hex_nonempty digits_to_nat_format_hex)

lemma toUInt_format_hex: "toUInt (format_hex upper width (unat (v :: u32))) 16 = (True, v)"
  using uint_lt2p[of v] by (simp add: toUInt_def qstrtoull_format_hex)


section \<open>Properties of the address resolution\<close>


lemma sint32_alt: "sint (w :: 32 word) = (if uint w < 2^31 then uint w else uint w - 2^32)"
proof -
  have b: "0 \<le> uint w" "uint w < 2^32" using uint_lt2p[of w] by simp_all
  have e: "sint w = (uint w + 2^31) mod 2^32 - 2^31"
    using int_word_sint[of "uint w", where 'a=32] by simp
  show ?thesis
  proof (cases "uint w < 2^31")
    case True
    then have "(uint w + 2^31) mod 2^32 = uint w + 2^31" using b by simp
    then show ?thesis using e True by simp
  next
    case False
    then have "(uint w + 2^31) mod 2^32 = uint w + 2^31 - 2^32" using b 
      by (simp add: mod_pos_geq)
    then show ?thesis using e False by simp
  qed
qed

lemma uint_neg32: "uint (- (w :: 32 word)) = (if w = 0 then 0 else 2^32 - uint w)"
proof -
  have b: "0 \<le> uint w" "uint w < 2^32" using uint_lt2p[of w] by simp_all
  have "uint (0 - w) = (if uint w \<le> uint (0::32 word) then uint (0::32 word) - uint w else uint (0::32 word) - uint w + 2^32)"
    by (simp only: uint_sub_if') simp
  then show ?thesis using b by (auto simp: uint_0_iff)
qed

lemma neg_offset_eq: "(if offset \<noteq> s32_min then - offset else s32_max + 1) = - offset"
  by (simp add: s32_min_def s32_max_def)

lemma offset_checks_iff:
  fixes addr :: u32 and offset :: s32
  shows "((word_sle 0 offset \<or> - offset \<le> addr) \<and> (word_sle offset 0 \<or> addr \<le> u32_max - offset))
     \<longleftrightarrow> (0 \<le> uint addr + sint offset \<and> uint addr + sint offset < 2 ^ 32)"
proof -
  have ba: "0 \<le> uint addr" "uint addr < 2^32" using uint_lt2p[of addr] by simp_all
  have bo: "0 \<le> uint offset" "uint offset < 2^32" using uint_lt2p[of offset] by simp_all
  have z: "offset = 0 \<longleftrightarrow> uint offset = 0" by (simp add: uint_0_iff)
  have m: "uint (u32_max - offset) = 2^32 - 1 - uint offset"
    using bo by (simp add: u32_max_def uint_sub_if')
  show ?thesis
    unfolding word_sle_eq word_le_def sint32_alt uint_neg32 m z
    using ba bo by (auto split: if_splits)
qed

lemma target_value:
  fixes addr :: u32 and offset :: s32
  assumes "0 \<le> uint addr + sint offset" "uint addr + sint offset < 2 ^ 32"
  shows "uint (if word_sless offset 0 then addr - (- offset) else addr + offset) = uint addr + sint offset"
proof -
  have ba: "0 \<le> uint addr" "uint addr < 2^32" using uint_lt2p[of addr] by simp_all
  have bo: "0 \<le> uint offset" "uint offset < 2^32" using uint_lt2p[of offset] by simp_all
  have "uint (addr + offset) = uint addr + sint offset"
    using assms ba bo unfolding sint32_alt uint_plus_if' by (auto split: if_splits)
  then show ?thesis by simp
qed


lemma toUInt_False: "toUInt s b = (False, a) \<Longrightarrow> a = 0"
  by (auto simp: toUInt_def split: option.splits if_splits)

lemma toInt_False: "toInt s b = (False, a) \<Longrightarrow> a = 0"
  by (auto simp: toInt_def split: option.splits if_splits)

lemma qstrtoull_nonneg: "qstrtoull s b = Some v \<Longrightarrow> 0 \<le> v"
  by (auto simp: qstrtoull_def split: list.splits if_splits)

lemma toUInt_True: "toUInt s b = (True, a) \<longleftrightarrow> qstrtoull s b = Some (uint a)"
proof
  assume "toUInt s b = (True, a)"
  then obtain v where v: "qstrtoull s b = Some v" "v < 2 ^ 32" "a = word_of_int v"
    by (auto simp: toUInt_def split: option.splits if_splits)
  then have "uint a = v" using qstrtoull_nonneg[OF v(1)]
    by (simp add: uint_word_of_int)
  then show "qstrtoull s b = Some (uint a)" using v by simp
next
  assume "qstrtoull s b = Some (uint a)"
  then show "toUInt s b = (True, a)"
    using uint_lt2p[of a] by (simp add: toUInt_def)
qed

lemma GetTargetAddress_flags:
  assumes "toUInt (m_search_address w) 16 = (ok_address, addr)"
      and "toInt (m_search_offset w) 16 = (ok_offset, offset)"
  shows "is_good_address (GetTargetAddress w) = (ok_address \<or> m_search_address w = [])"
    and "is_good_offset (GetTargetAddress w) =
           ((ok_offset \<or> m_search_offset w = []) \<and>
            0 \<le> uint addr + sint offset \<and> uint addr + sint offset < 2 ^ 32)"
  using assms offset_checks_iff[of offset addr]
  by (auto simp: GetTargetAddress_def Let_def neg_offset_eq)

lemma GetTargetAddress_address:
  assumes "toUInt (m_search_address w) 16 = (ok_address, addr)"
      and "toInt (m_search_offset w) 16 = (ok_offset, offset)"
      and "is_good_address (GetTargetAddress w)" "is_good_offset (GetTargetAddress w)"
  shows "uint (address (GetTargetAddress w)) = uint addr + sint offset"
proof -
  have r: "0 \<le> uint addr + sint offset" "uint addr + sint offset < 2 ^ 32"
    using GetTargetAddress_flags(2)[OF assms(1,2)] assms(4) by simp_all
  have g: "(ok_address \<or> m_search_address w = [])" "(ok_offset \<or> m_search_offset w = [])"
    using GetTargetAddress_flags[OF assms(1,2)] assms(3,4) by simp_all
  have "address (GetTargetAddress w) = (if word_sless offset 0 then addr - (- offset) else addr + offset)"
    using assms(1,2) g r offset_checks_iff[of offset addr]
    by (auto simp: GetTargetAddress_def Let_def neg_offset_eq)
  then show ?thesis using target_value[OF r] by simp
qed

section \<open>Evaluation of the conversions on concrete texts\<close>

lemmas parse_eval = qstr_def toUInt_def toInt_def toShort_def toUShort_def qstrtoll_def
  qstrtoull_def trimmed_def ascii_isspace_def parse_magnitude_def has_hex_prefix_def digit_of_def

lemma replicate_numeral: "replicate (numeral k) x = x # replicate (pred_numeral k) x"
  by (simp add: numeral_eq_Suc)

lemmas format_eval = format_hex_def hex_digits.simps hex_digit_char_def replicate_numeral

section \<open>The resolved address\<close>

text \<open>
  C1: when the address text is read as an unsigned and the offset text as a signed 32-bit
  hexadecimal number, and the sum of the two numbers lies between 0 and \<open>2^32 - 1\<close>,
  \<open>GetTargetAddress\<close> gives that sum with both flags true; when the sum is negative or
  above \<open>2^32 - 1\<close>, \<open>is_good_offset\<close> is false.
\<close>

theorem GetTargetAddress_sum:
  assumes "toUInt (m_search_address w) 16 = (True, a)"
      and "toInt (m_search_offset w) 16 = (True, off)"
  shows "(0 \<le> uint a + sint off \<and> uint a + sint off < 2 ^ 32 \<longrightarrow>
            uint (address (GetTargetAddress w)) = uint a + sint off \<and>
            is_good_address (GetTargetAddress w) \<and> is_good_offset (GetTargetAddress w)) \<and>
         (uint a + sint off < 0 \<or> 2 ^ 32 - 1 < uint a + sint off \<longrightarrow>
            \<not> is_good_offset (GetTargetAddress w))"
proof -
  have g: "is_good_address (GetTargetAddress w)"
    using GetTargetAddress_flags(1)[OF assms] by simp
  have o: "is_good_offset (GetTargetAddress w) \<longleftrightarrow>
        (0 \<le> uint a + sint off \<and> uint a + sint off < 2 ^ 32)"
    using GetTargetAddress_flags(2)[OF assms] by simp
  show ?thesis
    using g o GetTargetAddress_address[OF assms] by auto
qed

theorem GetTargetAddress_sum_witness:
  "uint (address (GetTargetAddress
      (initial_widget\<lparr>m_search_address := qstr ''80001000'', m_search_offset := qstr ''-20''\<rparr>)))
     = 0x80000FE0 \<and>
   is_good_address (GetTargetAddress
      (initial_widget\<lparr>m_search_address := qstr ''80001000'', m_search_offset := qstr ''-20''\<rparr>)) \<and>
   is_good_offset (GetTargetAddress
      (initial_widget\<lparr>m_search_address := qstr ''80001000'', m_search_offset := qstr ''-20''\<rparr>)) \<and>
   \<not> is_good_offset (GetTargetAddress
      (initial_widget\<lparr>m_search_address := qstr ''FFFFFFF0'', m_search_offset := qstr ''20''\<rparr>)) \<and>
   \<not> is_good_offset (GetTargetAddress
      (initial_widget\<lparr>m_search_address := qstr ''10'', m_search_offset := qstr ''-20''\<rparr>))"
proof -
  let ?w1 = "initial_widget\<lparr>m_search_address := qstr ''80001000'', m_search_offset := qstr ''-20''\<rparr>"
  let ?w2 = "initial_widget\<lparr>m_search_address := qstr ''FFFFFFF0'', m_search_offset := qstr ''20''\<rparr>"
  let ?w3 = "initial_widget\<lparr>m_search_address := qstr ''10'', m_search_offset := qstr ''-20''\<rparr>"
  have a1: "toUInt (m_search_address ?w1) 16 = (True, 0x80001000)" by (simp add: parse_eval)
  have o1: "toInt (m_search_offset ?w1) 16 = (True, - 0x20)" by (simp add: parse_eval)
  have a2: "toUInt (m_search_address ?w2) 16 = (True, 0xFFFFFFF0)" by (simp add: parse_eval)
  have o2: "toInt (m_search_offset ?w2) 16 = (True, 0x20)" by (simp add: parse_eval)
  have a3: "toUInt (m_search_address ?w3) 16 = (True, 0x10)" by (simp add: parse_eval)
  have o3: "toInt (m_search_offset ?w3) 16 = (True, - 0x20)" by (simp add: parse_eval)
  show ?thesis
    using GetTargetAddress_sum[OF a1 o1] GetTargetAddress_sum[OF a2 o2]
      GetTargetAddress_sum[OF a3 o3]
    by simp
qed

text \<open>
  C2: when the offset text is read as the least signed 32-bit number, its magnitude is taken
  as \<open>s32_max + 1 = 2^31\<close>: \<open>is_good_offset\<close> is false exactly when the address read
  is below \<open>2^31\<close>, and from \<open>2^31\<close> on both flags are true and the result is the
  address minus \<open>2^31\<close>.
\<close>

theorem GetTargetAddress_min_offset:
  assumes "toInt (m_search_offset w) 16 = (True, s32_min)"
      and "toUInt (m_search_address w) 16 = (ok, a)"
  shows "(\<not> is_good_offset (GetTargetAddress w) \<longleftrightarrow> uint a < 2 ^ 31) \<and>
         (is_good_offset (GetTargetAddress w) \<longleftrightarrow> s32_max + 1 \<le> a) \<and>
         uint (s32_max + 1) = 2 ^ 31 \<and>
         (2 ^ 31 \<le> uint a \<longrightarrow>
            is_good_address (GetTargetAddress w) \<and> is_good_offset (GetTargetAddress w) \<and>
            uint (address (GetTargetAddress w)) = uint a - 2 ^ 31)"
proof -
  have s: "sint s32_min = - (2 ^ 31)" by (simp add: s32_min_def)
  have m: "uint (s32_max + 1) = 2 ^ 31" by (simp add: s32_max_def)
  have b: "0 \<le> uint a" "uint a < 2 ^ 32" using uint_lt2p[of a] by simp_all
  have o: "is_good_offset (GetTargetAddress w) \<longleftrightarrow> 2 ^ 31 \<le> uint a"
    using GetTargetAddress_flags(2)[OF assms(2,1)] s b by auto
  have g: "2 ^ 31 \<le> uint a \<Longrightarrow> is_good_address (GetTargetAddress w)"
  proof -
    assume h: "2 ^ 31 \<le> uint a"
    have "ok"
    proof (rule ccontr)
      assume "\<not> ok"
      then have "a = 0" using assms(2) toUInt_False[of "m_search_address w" 16 a] by simp
      then show False using h by simp
    qed
    then show ?thesis using GetTargetAddress_flags(1)[OF assms(2,1)] by simp
  qed
  have v: "2 ^ 31 \<le> uint a \<Longrightarrow> uint (address (GetTargetAddress w)) = uint a - 2 ^ 31"
    using GetTargetAddress_address[OF assms(2,1)] g o s by simp
  show ?thesis using o m g v by (auto simp: word_le_def)
qed

theorem GetTargetAddress_min_offset_witness:
  "\<not> is_good_offset (GetTargetAddress
      (initial_widget\<lparr>m_search_address := qstr ''7FFFFFFF'', m_search_offset := qstr ''-80000000''\<rparr>)) \<and>
   is_good_offset (GetTargetAddress
      (initial_widget\<lparr>m_search_address := qstr ''80000010'', m_search_offset := qstr ''-80000000''\<rparr>)) \<and>
   is_good_address (GetTargetAddress
      (initial_widget\<lparr>m_search_address := qstr ''80000010'', m_search_offset := qstr ''-80000000''\<rparr>)) \<and>
   uint (address (GetTargetAddress
      (initial_widget\<lparr>m_search_address := qstr ''80000010'', m_search_offset := qstr ''-80000000''\<rparr>))) = 0x10"
proof -
  let ?w1 = "initial_widget\<lparr>m_search_address := qstr ''7FFFFFFF'', m_search_offset := qstr ''-80000000''\<rparr>"
  let ?w2 = "initial_widget\<lparr>m_search_address := qstr ''80000010'', m_search_offset := qstr ''-80000000''\<rparr>"
  have a1: "toUInt (m_search_address ?w1) 16 = (True, 0x7FFFFFFF)" by (simp add: parse_eval)
  have o1: "toInt (m_search_offset ?w1) 16 = (True, s32_min)" by (simp add: parse_eval s32_min_def)
  have a2: "toUInt (m_search_address ?w2) 16 = (True, 0x80000010)" by (simp add: parse_eval)
  have o2: "toInt (m_search_offset ?w2) 16 = (True, s32_min)" by (simp add: parse_eval s32_min_def)
  show ?thesis
    using GetTargetAddress_min_offset[OF o1 a1] GetTargetAddress_min_offset[OF o2 a2]
    by simp
qed

section \<open>After a match\<close>

lemma length_hex_digits: "0 < k \<Longrightarrow> n < 16 ^ k \<Longrightarrow> length (hex_digits upper n) \<le> k"
proof (induction upper n arbitrary: k rule: hex_digits.induct)
  case (1 upper n)
  show ?case
  proof (cases "n < 16")
    case True
    then show ?thesis using "1.prems" by (simp add: hex_digits.simps[of upper n])
  next
    case False
    obtain j where k: "k = Suc j" using "1.prems"(1) by (cases k) auto
    have "j \<noteq> 0" using False "1.prems"(2) k by (cases j) auto
    moreover have "n div 16 < 16 ^ j" using "1.prems"(2) k
      by (simp add: less_mult_imp_div_less mult.commute)
    ultimately have "length (hex_digits upper (n div 16)) \<le> j"
      using "1.IH"[OF False, of j] by simp
    then show ?thesis using False k by (simp add: hex_digits.simps[of upper n])
  qed
qed

lemma length_format_hex:
  "0 < width \<Longrightarrow> n < 16 ^ width \<Longrightarrow> length (format_hex upper width n) = width"
  using length_hex_digits[of width n upper] by (simp add: format_hex_def)

lemma is_lower_hex_char_unat:
  "is_lower_hex_char c \<longleftrightarrow> (48 \<le> unat c \<and> unat c \<le> 57) \<or> (97 \<le> unat c \<and> unat c \<le> 102)"
  by (simp add: is_lower_hex_char_def word_le_nat_alt)

lemma hex_digits_lower: "list_all is_lower_hex_char (hex_digits False n)"
proof (induction "False" n rule: hex_digits.induct)
  case (1 n)
  have l: "\<And>d. d < 16 \<Longrightarrow> is_lower_hex_char (hex_digit_char False d)"
    by (auto simp: is_lower_hex_char_unat unat_hex_digit_char)
  show ?case
  proof (cases "n < 16")
    case True
    then show ?thesis by (simp add: hex_digits.simps[of False n] l)
  next
    case False
    then show ?thesis using "1.hyps"
      by (simp add: hex_digits.simps[of False n] l)
  qed
qed

lemma format_hex_lower: "list_all is_lower_hex_char (format_hex False width n)"
  using hex_digits_lower[of n]
  by (auto simp: format_hex_def list_all_iff is_lower_hex_char_def)

lemma toInt_empty: "toInt [] b = (False, 0)"
  by (simp add: toInt_def qstrtoll_def trimmed_def)

lemma GetTargetAddress_after_found:
  assumes "m_search_address w = format_hex False 8 (unat found)" "m_search_offset w = []"
  shows "GetTargetAddress w = \<lparr>address = found, is_good_address = True, is_good_offset = True\<rparr>"
  using assms
  by (simp add: GetTargetAddress_def toUInt_format_hex toInt_empty s32_min_def u32_max_def)


lemmas to_bytes_eval = toLatin1_def fromLatin1_def toUtf8.simps utf8_of_code_point_def
  is_high_surrogate_def is_low_surrogate_def toHex_def fromHex_def fromHex_digit_def
  hex_digit_char_def

lemmas widget_eval = ValidateAndPreviewInputValue_def GetInputData_def preview_of_def
  insert_spaces.simps qinsert_def remove_spaces_def is_hex_hasMatch_def is_hex_char_def
  is_integer_type_def
  initial_widget_def Let_def

text \<open>
  C9: whenever \<open>FindValue\<close> reports a match, the address field holds the address found
  as exactly eight lower-case hexadecimal digits, filled with zeros, the offset field is
  empty, and \<open>GetTargetAddress\<close> on the new contents gives exactly that address with
  both flags true.
\<close>

theorem FindValue_match_found:
  assumes "m_result_label (FindValue Search next w) = ''Match Found''"
  shows "\<exists>found start.
           Search start (GetInputData w) next = Some found \<and>
           m_search_address (FindValue Search next w) = format_hex False 8 (unat found) \<and>
           length (m_search_address (FindValue Search next w)) = 8 \<and>
           list_all is_lower_hex_char (m_search_address (FindValue Search next w)) \<and>
           m_search_offset (FindValue Search next w) = [] \<and>
           GetTargetAddress (FindValue Search next w) =
             \<lparr>address = found, is_good_address = True, is_good_offset = True\<rparr>"
proof -
  let ?t = "GetTargetAddress w"
  let ?start = "if m_search_address w \<noteq> [] then address ?t + (if next then 1 else - 1)
                else address ?t"
  have g: "is_good_address ?t" "is_good_offset ?t" "GetInputData w \<noteq> []"
    using assms by (auto simp: FindValue_def Let_def split: if_splits)
  obtain found where f: "Search ?start (GetInputData w) next = Some found"
    using assms g by (cases "Search ?start (GetInputData w) next") (auto simp: FindValue_def Let_def)
  have r: "FindValue Search next w =
             w\<lparr>m_result_label := ''Match Found'',
               m_search_address := format_hex False 8 (unat found),
               m_search_offset := [], m_memory_view_address := found\<rparr>"
    using g f by (simp add: FindValue_def Let_def)
  have n: "unat found < 16 ^ 8" using unsigned_less[of found, where 'a=nat] by simp
  have l: "length (format_hex False 8 (unat found)) = 8"
    using length_format_hex[OF _ n] by simp
  have t: "GetTargetAddress (FindValue Search next w) =
             \<lparr>address = found, is_good_address = True, is_good_offset = True\<rparr>"
    by (rule GetTargetAddress_after_found) (simp_all add: r)
  show ?thesis
    using f l t format_hex_lower[of 8 "unat found"] by (auto simp: r)
qed


lemma found_widget_target:
  "GetTargetAddress found_widget =
     \<lparr>address = 0x80003000, is_good_address = True, is_good_offset = True\<rparr>"
  by (simp add: GetTargetAddress_def found_widget_def initial_widget_def parse_eval
      s32_min_def s32_max_def u32_max_def)

lemma found_widget_data: "GetInputData found_widget = [0x1F]"
  by (simp add: found_widget_def widget_eval to_bytes_eval qstr_def)

theorem FindValue_match_found_witness:
  "GetTargetAddress (FindValue (\<lambda>start pattern forward. Some 0x80003100) True found_widget) =
     \<lparr>address = 0x80003100, is_good_address = True, is_good_offset = True\<rparr>"
proof -
  let ?S = "\<lambda>(start::u32) (pattern::qbytearray) (forward::bool). Some (0x80003100::u32)"
  have h: "m_result_label (FindValue ?S True found_widget) = ''Match Found''"
    by (simp add: FindValue_def found_widget_target found_widget_data)
  show ?thesis using FindValue_match_found[OF h] by auto
qed

section \<open>Validation of the value\<close>


lemma Validate_empty:
  "m_data_edit w = [] \<Longrightarrow>
   ValidateAndPreviewInputValue toFloat toDouble w =
     w\<lparr>m_data_preview := [], m_base_check_enabled := is_integer_type (m_input_combo w)\<rparr>"
  by (simp add: ValidateAndPreviewInputValue_def Let_def)

lemma Validate_nonempty:
  assumes "m_data_edit w \<noteq> []"
      and "switch_combo_id toFloat toDouble (m_input_combo w)
             (if m_base_check_checked w \<and> is_integer_type (m_input_combo w) then 16 else 0)
             (if m_input_combo w \<noteq> ASCII then remove_spaces (m_data_edit w) else m_data_edit w)
           = (good, hex_string)"
  shows "ValidateAndPreviewInputValue toFloat toDouble w =
     (if good
      then w\<lparr>m_data_preview := preview_of hex_string,
             m_base_check_enabled := is_integer_type (m_input_combo w),
             m_data_edit_bold_red := False\<rparr>
      else w\<lparr>m_data_preview := [],
             m_base_check_enabled := is_integer_type (m_input_combo w),
             m_data_edit_bold_red := True\<rparr>)"
proof (cases "m_base_check_checked w \<and> is_integer_type (m_input_combo w)")
  case True
  then have "m_input_combo w \<noteq> ASCII" by (auto simp: is_integer_type_def)
  then show ?thesis using assms True
    by (simp add: ValidateAndPreviewInputValue_def Let_def)
next
  case False
  show ?thesis
  proof (cases "m_input_combo w = ASCII")
    case True
    then show ?thesis using assms False
      by (auto simp: ValidateAndPreviewInputValue_def Let_def)
  next
    case nA: False
    then show ?thesis using assms False
      by (auto simp: ValidateAndPreviewInputValue_def Let_def)
  qed
qed

lemma switch_failure_empty:
  "\<not> fst (switch_combo_id toFloat toDouble combo_id radix input_text) \<Longrightarrow>
   snd (switch_combo_id toFloat toDouble combo_id radix input_text) = []"
  by (cases combo_id) (auto simp: Let_def split: prod.splits if_splits)


text \<open>
  C8: for every text and every type, when the conversion or the range check of the selected
  type fails, no value results: \<open>hex_string\<close> stays empty, the preview is left empty,
  and \<open>GetInputData\<close> gives the empty byte sequence.
\<close>

theorem Validate_failure_absent:
  assumes "m_data_edit w \<noteq> []"
      and "\<not> fst (switch_combo_id toFloat toDouble (m_input_combo w)
                 (if m_base_check_checked w \<and> is_integer_type (m_input_combo w) then 16 else 0)
                 (if m_input_combo w \<noteq> ASCII then remove_spaces (m_data_edit w)
                  else m_data_edit w))"
  shows "m_data_preview (ValidateAndPreviewInputValue toFloat toDouble w) = [] \<and>
         GetInputData (ValidateAndPreviewInputValue toFloat toDouble w) = [] \<and>
         m_data_edit_bold_red (ValidateAndPreviewInputValue toFloat toDouble w) \<and>
         snd (switch_combo_id toFloat toDouble (m_input_combo w)
                 (if m_base_check_checked w \<and> is_integer_type (m_input_combo w) then 16 else 0)
                 (if m_input_combo w \<noteq> ASCII then remove_spaces (m_data_edit w)
                  else m_data_edit w)) = []"
proof -
  obtain good hex_string where
    s: "switch_combo_id toFloat toDouble (m_input_combo w)
          (if m_base_check_checked w \<and> is_integer_type (m_input_combo w) then 16 else 0)
          (if m_input_combo w \<noteq> ASCII then remove_spaces (m_data_edit w) else m_data_edit w)
        = (good, hex_string)"
    by (cases "switch_combo_id toFloat toDouble (m_input_combo w)
          (if m_base_check_checked w \<and> is_integer_type (m_input_combo w) then 16 else 0)
          (if m_input_combo w \<noteq> ASCII then remove_spaces (m_data_edit w) else m_data_edit w)")
  have "\<not> good" using assms(2) s by simp
  then show ?thesis
    using Validate_nonempty[OF assms(1) s] switch_failure_empty[OF assms(2)]
    by (simp add: GetInputData_def)
qed


theorem Validate_failure_absent_witness:
  "m_data_preview (ValidateAndPreviewInputValue no_float no_double
      (initial_widget\<lparr>m_input_combo := S8, m_data_edit := qstr ''999''\<rparr>)) = [] \<and>
   GetInputData (ValidateAndPreviewInputValue no_float no_double
      (initial_widget\<lparr>m_input_combo := S8, m_data_edit := qstr ''999''\<rparr>)) = []"
proof -
  let ?w = "initial_widget\<lparr>m_input_combo := S8, m_data_edit := qstr ''999''\<rparr>"
  have p: "toShort (qstr ''999'') 0 = (True, 999)" by (simp add: parse_eval)
  have r: "remove_spaces (qstr ''999'') = qstr ''999''" by (simp add: remove_spaces_def qstr_def)
  have n: "m_data_edit ?w \<noteq> []" by (simp add: qstr_def)
  have f: "\<not> fst (switch_combo_id no_float no_double (m_input_combo ?w)
                 (if m_base_check_checked ?w \<and> is_integer_type (m_input_combo ?w) then 16 else 0)
                 (if m_input_combo ?w \<noteq> ASCII then remove_spaces (m_data_edit ?w)
                  else m_data_edit ?w))"
    by (simp add: initial_widget_def r p)
  show ?thesis using Validate_failure_absent[OF n f] by simp
qed

section \<open>The outcomes of a find request\<close>
lemma FindValue_bad_address:
  "\<not> is_good_address (GetTargetAddress w) \<Longrightarrow>
   FindValue Search next w = w\<lparr>m_result_label := ''Bad address provided.''\<rparr>"
  by (simp add: FindValue_def Let_def)

lemma FindValue_bad_offset:
  "is_good_address (GetTargetAddress w) \<Longrightarrow> \<not> is_good_offset (GetTargetAddress w) \<Longrightarrow>
   FindValue Search next w = w\<lparr>m_result_label := ''Bad offset provided.''\<rparr>"
  by (simp add: FindValue_def Let_def)

lemma FindValue_bad_value:
  "is_good_address (GetTargetAddress w) \<Longrightarrow> is_good_offset (GetTargetAddress w) \<Longrightarrow>
   GetInputData w = [] \<Longrightarrow>
   FindValue Search next w = w\<lparr>m_result_label := ''Bad Value Given''\<rparr>"
  by (simp add: FindValue_def Let_def)


text \<open>
  C7: a find request with an address text that cannot be read, with an offset text that
  cannot be read or a sum outside 32 bits, or with no bytes to look for, is answered with one
  of three different messages whatever the search of the address space would do, and
  \<open>No Match\<close> is reported exactly when both flags are good, there are bytes to look for
  and the search itself finds nothing.
\<close>

theorem FindValue_errors:
  "(m_search_address w \<noteq> [] \<and> \<not> fst (toUInt (m_search_address w) 16) \<longrightarrow>
      FindValue Search next w = w\<lparr>m_result_label := ''Bad address provided.''\<rparr>) \<and>
   ((m_search_address w = [] \<or> fst (toUInt (m_search_address w) 16)) \<and>
    ((m_search_offset w \<noteq> [] \<and> \<not> fst (toInt (m_search_offset w) 16)) \<or>
     uint (snd (toUInt (m_search_address w) 16)) + sint (snd (toInt (m_search_offset w) 16)) < 0 \<or>
     2 ^ 32 \<le> uint (snd (toUInt (m_search_address w) 16)) + sint (snd (toInt (m_search_offset w) 16)))
    \<longrightarrow> FindValue Search next w = w\<lparr>m_result_label := ''Bad offset provided.''\<rparr>) \<and>
   (is_good_address (GetTargetAddress w) \<and> is_good_offset (GetTargetAddress w) \<and>
    GetInputData w = []
    \<longrightarrow> FindValue Search next w = w\<lparr>m_result_label := ''Bad Value Given''\<rparr>) \<and>
   (m_result_label (FindValue Search next w) = ''No Match'' \<longleftrightarrow>
      is_good_address (GetTargetAddress w) \<and> is_good_offset (GetTargetAddress w) \<and>
      GetInputData w \<noteq> [] \<and>
      Search (if m_search_address w \<noteq> []
              then address (GetTargetAddress w) + (if next then 1 else - 1)
              else address (GetTargetAddress w)) (GetInputData w) next = None) \<and>
   ''Bad address provided.'' \<noteq> ''Bad offset provided.'' \<and>
   ''Bad address provided.'' \<noteq> ''Bad Value Given'' \<and>
   ''Bad offset provided.'' \<noteq> ''Bad Value Given'' \<and>
   ''No Match'' \<notin> {''Bad address provided.'', ''Bad offset provided.'', ''Bad Value Given''}"
proof -
  obtain oka a where A: "toUInt (m_search_address w) 16 = (oka, a)"
    by (cases "toUInt (m_search_address w) 16")
  obtain oko off where O: "toInt (m_search_offset w) 16 = (oko, off)"
    by (cases "toInt (m_search_offset w) 16")
  note fl = GetTargetAddress_flags[OF A O]
  have 1: "m_search_address w \<noteq> [] \<and> \<not> fst (toUInt (m_search_address w) 16) \<longrightarrow>
      FindValue Search next w = w\<lparr>m_result_label := ''Bad address provided.''\<rparr>"
    using fl(1) A by (simp add: FindValue_bad_address)
  have 2: "(m_search_address w = [] \<or> fst (toUInt (m_search_address w) 16)) \<and>
    ((m_search_offset w \<noteq> [] \<and> \<not> fst (toInt (m_search_offset w) 16)) \<or>
     uint (snd (toUInt (m_search_address w) 16)) + sint (snd (toInt (m_search_offset w) 16)) < 0 \<or>
     2 ^ 32 \<le> uint (snd (toUInt (m_search_address w) 16)) + sint (snd (toInt (m_search_offset w) 16)))
    \<longrightarrow> FindValue Search next w = w\<lparr>m_result_label := ''Bad offset provided.''\<rparr>"
    using fl A O by (auto simp: FindValue_bad_offset)
  have 3: "is_good_address (GetTargetAddress w) \<and> is_good_offset (GetTargetAddress w) \<and>
    GetInputData w = []
    \<longrightarrow> FindValue Search next w = w\<lparr>m_result_label := ''Bad Value Given''\<rparr>"
    by (simp add: FindValue_bad_value)
  have 4: "m_result_label (FindValue Search next w) = ''No Match'' \<longleftrightarrow>
      is_good_address (GetTargetAddress w) \<and> is_good_offset (GetTargetAddress w) \<and>
      GetInputData w \<noteq> [] \<and>
      Search (if m_search_address w \<noteq> []
              then address (GetTargetAddress w) + (if next then 1 else - 1)
              else address (GetTargetAddress w)) (GetInputData w) next = None"
    by (auto simp: FindValue_def Let_def split: option.splits)
  have 5: "''Bad address provided.'' \<noteq> ''Bad offset provided.'' \<and>
   ''Bad address provided.'' \<noteq> ''Bad Value Given'' \<and>
   ''Bad offset provided.'' \<noteq> ''Bad Value Given'' \<and>
   ''No Match'' \<notin> {''Bad address provided.'', ''Bad offset provided.'', ''Bad Value Given''}"
    by simp
  show ?thesis using 1 2 3 4 5 by blast
qed


theorem FindValue_errors_witness:
  "FindValue (\<lambda>start pattern forward. Some 0) True (found_widget\<lparr>m_search_address := qstr ''8000G000''\<rparr>) =
     found_widget\<lparr>m_search_address := qstr ''8000G000'',
                  m_result_label := ''Bad address provided.''\<rparr> \<and>
   FindValue (\<lambda>start pattern forward. Some 0) True (found_widget\<lparr>m_search_address := qstr ''10'', m_search_offset := qstr ''-20''\<rparr>) =
     found_widget\<lparr>m_search_address := qstr ''10'', m_search_offset := qstr ''-20'',
                  m_result_label := ''Bad offset provided.''\<rparr> \<and>
   FindValue (\<lambda>start pattern forward. Some 0) True (found_widget\<lparr>m_data_preview := []\<rparr>) =
     found_widget\<lparr>m_data_preview := [], m_result_label := ''Bad Value Given''\<rparr> \<and>
   m_result_label (FindValue (\<lambda>start pattern forward. None) True found_widget) = ''No Match''"
proof -
  let ?w1 = "found_widget\<lparr>m_search_address := qstr ''8000G000''\<rparr>"
  let ?w2 = "found_widget\<lparr>m_search_address := qstr ''10'', m_search_offset := qstr ''-20''\<rparr>"
  let ?w3 = "found_widget\<lparr>m_data_preview := []\<rparr>"
  let ?S = "\<lambda>(start::u32) (pattern::qbytearray) (forward::bool). Some (0::u32)"
  let ?N = "\<lambda>(start::u32) (pattern::qbytearray) (forward::bool). None :: u32 option"
  have a1: "m_search_address ?w1 \<noteq> [] \<and> \<not> fst (toUInt (m_search_address ?w1) 16)"
    by (simp add: parse_eval)
  have a2: "toUInt (m_search_address ?w2) 16 = (True, 0x10)"
    by (simp add: parse_eval)
  have o2: "toInt (m_search_offset ?w2) 16 = (True, - 0x20)"
    by (simp add: parse_eval)
  have h2: "(m_search_address ?w2 = [] \<or> fst (toUInt (m_search_address ?w2) 16)) \<and>
    ((m_search_offset ?w2 \<noteq> [] \<and> \<not> fst (toInt (m_search_offset ?w2) 16)) \<or>
     uint (snd (toUInt (m_search_address ?w2) 16)) + sint (snd (toInt (m_search_offset ?w2) 16)) < 0 \<or>
     2 ^ 32 \<le> uint (snd (toUInt (m_search_address ?w2) 16)) + sint (snd (toInt (m_search_offset ?w2) 16)))"
    by (simp only: a2 o2) simp
  have t3: "GetTargetAddress ?w3 = GetTargetAddress found_widget"
    by (simp add: GetTargetAddress_def)
  have h3: "is_good_address (GetTargetAddress ?w3) \<and> is_good_offset (GetTargetAddress ?w3) \<and>
    GetInputData ?w3 = []"
    by (simp add: t3 found_widget_target GetInputData_def)
  have h4: "is_good_address (GetTargetAddress found_widget) \<and>
      is_good_offset (GetTargetAddress found_widget) \<and>
      GetInputData found_widget \<noteq> [] \<and>
      ?N (if m_search_address found_widget \<noteq> []
              then address (GetTargetAddress found_widget) + (if True then 1 else - 1)
              else address (GetTargetAddress found_widget)) (GetInputData found_widget) True = None"
    by (simp add: found_widget_target found_widget_data)
  show ?thesis
    using FindValue_errors[of ?w1 ?S True] FindValue_errors[of ?w2 ?S True]
      FindValue_errors[of ?w3 ?S True] FindValue_errors[of found_widget ?N True]
      a1 h2 h3 h4
    by simp
qed

section \<open>The base of the integer conversions\<close>






lemma switch_radix_unused:
  "\<not> is_integer_type combo_id \<Longrightarrow>
   switch_combo_id toFloat toDouble combo_id radix input_text =
   switch_combo_id toFloat toDouble combo_id radix' input_text"
  by (cases combo_id) (simp_all add: is_integer_type_def)


lemma Validate_fields:
  "m_data_edit (ValidateAndPreviewInputValue toFloat toDouble w) = m_data_edit w"
  "m_input_combo (ValidateAndPreviewInputValue toFloat toDouble w) = m_input_combo w"
  "m_base_check_checked (ValidateAndPreviewInputValue toFloat toDouble w) = m_base_check_checked w"
  "m_base_check_enabled (ValidateAndPreviewInputValue toFloat toDouble w) =
     is_integer_type (m_input_combo w)"
  "m_search_address (ValidateAndPreviewInputValue toFloat toDouble w) = m_search_address w"
  "m_search_offset (ValidateAndPreviewInputValue toFloat toDouble w) = m_search_offset w"
  by (simp_all add: ValidateAndPreviewInputValue_def Let_def split: prod.splits)

















section \<open>Texts of 7-bit characters\<close>

lemma utf8_of_code_point_ascii: "n < 0x80 \<Longrightarrow> utf8_of_code_point n = [of_nat n]"
  by (simp add: utf8_of_code_point_def)

lemma not_surrogate_ascii:
  "c < 0x80 \<Longrightarrow> \<not> is_high_surrogate c \<and> \<not> is_low_surrogate c"
  by (auto simp: is_high_surrogate_def is_low_surrogate_def word_le_nat_alt word_less_nat_alt)

lemma ucast_as_of_nat: "of_nat (unat (c :: qchar)) = (ucast c :: 8 word)"
  by simp

lemma toUtf8_ascii: "\<forall>c \<in> set s. c < 0x80 \<Longrightarrow> toUtf8 s = map ucast s"
proof (induction s rule: toUtf8.induct)
  case 1
  show ?case by simp
next
  case (2 c)
  then have "c < 0x80" by simp
  then show ?case
    using not_surrogate_ascii[of c]
    by (simp add: utf8_of_code_point_ascii word_less_nat_alt)
next
  case (3 c d cs)
  then have c: "c < 0x80" by simp
  have "toUtf8 (d # cs) = map ucast (d # cs)" using 3 c not_surrogate_ascii[of c] by simp
  then show ?case
    using c not_surrogate_ascii[of c]
    by (simp add: utf8_of_code_point_ascii word_less_nat_alt)
qed

lemma toLatin1_ascii: "\<forall>c \<in> set s. c < 0x80 \<Longrightarrow> toLatin1 s = map ucast s"
  by (auto simp: toLatin1_def word_le_nat_alt word_less_nat_alt)

section \<open>Decoding hexadecimal digits\<close>

lemma fromHex_loop_skip:
  "fromHex_loop (filter (\<lambda>b. fromHex_digit b \<noteq> None) xs) odd_digit res =
   fromHex_loop xs odd_digit res"
  by (induction xs odd_digit res rule: fromHex_loop.induct)
     (auto split: option.splits list.splits)

lemma fromHex_filter: "fromHex (filter (\<lambda>b. fromHex_digit b \<noteq> None) bs) = fromHex bs"
proof -
  have "rev (filter (\<lambda>b. fromHex_digit b \<noteq> None) bs) =
        filter (\<lambda>b. fromHex_digit b \<noteq> None) (rev bs)"
    by (rule rev_filter)
  then show ?thesis unfolding fromHex_def by (simp only: fromHex_loop_skip)
qed


section \<open>Latin-1 and UTF-8\<close>

lemma length_toLatin1: "length (toLatin1 s) = length s"
  by (simp add: toLatin1_def)

lemma length_utf8_of_code_point:
  "length (utf8_of_code_point n) =
     (if n < 0x80 then 1 else if n < 0x800 then 2 else if n < 0x10000 then 3 else 4)"
  by (simp add: utf8_of_code_point_def)

lemma length_toUtf8_ge: "length s \<le> length (toUtf8 s)"
  by (induction s rule: toUtf8.induct) (auto simp: length_utf8_of_code_point)

lemma length_toUtf8_gt:
  "surrogates_paired s \<Longrightarrow> (\<forall>c \<in> set s. c < 0x80) \<or> length s < length (toUtf8 s)"
proof (induction s rule: toUtf8.induct)
  case 1
  show ?case by simp
next
  case (2 c)
  then show ?case
    by (auto simp: length_utf8_of_code_point word_less_nat_alt)
next
  case (3 c d cs)
  show ?case
  proof (cases "is_high_surrogate c")
    case True
    then have "is_low_surrogate d" using "3.prems" by simp
    then show ?thesis
      using True length_toUtf8_ge[of cs] by (simp add: length_utf8_of_code_point)
  next
    case False
    then have p: "\<not> is_low_surrogate c" "surrogates_paired (d # cs)" using "3.prems" by simp_all
    have ih: "(\<forall>c \<in> set (d # cs). c < 0x80) \<or> length (d # cs) < length (toUtf8 (d # cs))"
      using "3.IH"(4)[OF False p(1) p(2)] .
    show ?thesis
    proof (cases "c < 0x80")
      case True
      then show ?thesis using ih False p
        by (auto simp: length_utf8_of_code_point word_less_nat_alt)
    next
      case nc: False
      then have "2 \<le> length (utf8_of_code_point (unat c))"
        by (simp add: length_utf8_of_code_point word_less_nat_alt)
      then show ?thesis using False p length_toUtf8_ge[of "d # cs"] by simp
    qed
  qed
qed

lemma toUtf8_eq_toLatin1_iff:
  assumes "surrogates_paired s"
  shows "toUtf8 s = toLatin1 s \<longleftrightarrow> (\<forall>c \<in> set s. c < 0x80)"
proof
  assume e: "toUtf8 s = toLatin1 s"
  then have "length (toUtf8 s) = length s" by (simp add: length_toLatin1)
  then show "\<forall>c \<in> set s. c < 0x80" using length_toUtf8_gt[OF assms] by auto
next
  assume "\<forall>c \<in> set s. c < 0x80"
  then show "toUtf8 s = toLatin1 s" by (simp add: toUtf8_ascii toLatin1_ascii)
qed


lemma length_insert_spaces: "length hex_string \<le> length (insert_spaces i n hex_string)"
proof (induction i n hex_string rule: insert_spaces.induct)
  case (1 i output_length hex_string)
  show ?case
  proof (cases "i < output_length")
    case True
    have "length hex_string \<le> length (qinsert (output_length - i) 0x20 hex_string)"
      by (simp add: qinsert_def)
    then show ?thesis using True "1.IH"[OF True]
      by (simp add: insert_spaces.simps[of i output_length hex_string])
  next
    case False
    then show ?thesis by (simp add: insert_spaces.simps[of i output_length hex_string])
  qed
qed

lemma preview_of_nonempty: "hex_string \<noteq> [] \<Longrightarrow> preview_of hex_string \<noteq> []"
proof -
  assume n: "hex_string \<noteq> []"
  have "0 < length (preview_of hex_string)"
  proof (cases "16 < length hex_string")
    case True
    have "length (take 16 hex_string @ qstr ''...'') \<le>
          length (insert_spaces 2 (length (take 16 hex_string)) (take 16 hex_string @ qstr ''...''))"
      by (rule length_insert_spaces)
    then show ?thesis using True by (auto simp: preview_of_def Let_def qstr_def)
  next
    case False
    then show ?thesis
      using n length_insert_spaces[of hex_string 2 "length hex_string"]
      by (auto simp: preview_of_def)
  qed
  then show ?thesis by simp
qed

lemma length_toHex: "length (toHex bs) = 2 * length bs"
  by (induction bs) (simp_all add: toHex_def)

lemma Validate_ASCII:
  assumes "m_input_combo w = ASCII" "m_data_edit w \<noteq> []"
  shows "ValidateAndPreviewInputValue toFloat toDouble w =
           w\<lparr>m_data_preview := preview_of (fromLatin1 (toHex (toLatin1 (m_data_edit w)))),
             m_base_check_enabled := False, m_data_edit_bold_red := False\<rparr>"
  using assms by (simp add: ValidateAndPreviewInputValue_def Let_def is_integer_type_def)

text \<open>
  C10, as amended: with the type ASCII every text that is not empty is accepted, the preview
  is made from the hexadecimal digits of the Latin-1 bytes of the text, and
  \<open>GetInputData\<close> gives the UTF-8 bytes of the text.  These are never fewer than the
  Latin-1 bytes, and equal to them when every character is below \<open>0x80\<close>.  When no
  surrogate stands without its partner, they are equal exactly when every character is below
  \<open>0x80\<close>, and otherwise there are more of them.
\<close>

theorem ASCII_preview_and_bytes:
  assumes "m_input_combo w = ASCII" "m_data_edit w \<noteq> []"
  shows "\<not> m_data_edit_bold_red (ValidateAndPreviewInputValue toFloat toDouble w) \<and>
         m_data_preview (ValidateAndPreviewInputValue toFloat toDouble w) =
           preview_of (fromLatin1 (toHex (toLatin1 (m_data_edit w)))) \<and>
         m_data_preview (ValidateAndPreviewInputValue toFloat toDouble w) \<noteq> [] \<and>
         GetInputData (ValidateAndPreviewInputValue toFloat toDouble w) = toUtf8 (m_data_edit w) \<and>
         length (toLatin1 (m_data_edit w)) \<le>
           length (GetInputData (ValidateAndPreviewInputValue toFloat toDouble w)) \<and>
         ((\<forall>c \<in> set (m_data_edit w). c < 0x80) \<longrightarrow>
            GetInputData (ValidateAndPreviewInputValue toFloat toDouble w) =
              toLatin1 (m_data_edit w)) \<and>
         (surrogates_paired (m_data_edit w) \<longrightarrow>
            (GetInputData (ValidateAndPreviewInputValue toFloat toDouble w) =
               toLatin1 (m_data_edit w) \<longleftrightarrow> (\<forall>c \<in> set (m_data_edit w). c < 0x80)) \<and>
            (\<not> (\<forall>c \<in> set (m_data_edit w). c < 0x80) \<longrightarrow>
               length (toLatin1 (m_data_edit w)) <
                 length (GetInputData (ValidateAndPreviewInputValue toFloat toDouble w))))"
proof -
  let ?w = "ValidateAndPreviewInputValue toFloat toDouble w"
  let ?t = "m_data_edit w"
  have h: "fromLatin1 (toHex (toLatin1 ?t)) \<noteq> []"
    using assms(2) length_toHex[of "toLatin1 ?t"] by (auto simp: fromLatin1_def length_toLatin1)
  have p: "m_data_preview ?w = preview_of (fromLatin1 (toHex (toLatin1 ?t)))"
    and r: "\<not> m_data_edit_bold_red ?w"
    by (simp_all add: Validate_ASCII[OF assms])
  have n: "m_data_preview ?w \<noteq> []" using p preview_of_nonempty[OF h] by simp
  have g: "GetInputData ?w = toUtf8 ?t"
    using n assms(1) by (simp add: GetInputData_def Validate_ASCII[OF assms])
  show ?thesis
    using p r n g length_toUtf8_ge[of ?t] length_toUtf8_gt[of ?t] toUtf8_eq_toLatin1_iff[of ?t]
    by (auto simp: length_toLatin1 toUtf8_ascii toLatin1_ascii)
qed

text \<open>
  A high surrogate alone is one question mark both in Latin-1 and in UTF-8: the bytes are
  equal although the character is not below \<open>0x80\<close>.
\<close>

theorem ASCII_lone_surrogate_counterexample:
  "GetInputData (ValidateAndPreviewInputValue no_float no_double
      (initial_widget\<lparr>m_input_combo := ASCII, m_data_edit := [0xD800]\<rparr>)) = toLatin1 [0xD800] \<and>
   \<not> (0xD800 :: qchar) < 0x80"
proof -
  let ?w = "initial_widget\<lparr>m_input_combo := ASCII, m_data_edit := [0xD800]\<rparr>"
  have v: "ValidateAndPreviewInputValue no_float no_double ?w =
      ?w\<lparr>m_data_preview := preview_of (fromLatin1 (toHex (toLatin1 (m_data_edit ?w)))),
             m_base_check_enabled := False, m_data_edit_bold_red := False\<rparr>"
    by (rule Validate_ASCII) simp_all
  have "preview_of (fromLatin1 (toHex (toLatin1 [0xD800]))) \<noteq> []"
    by (rule preview_of_nonempty) (simp add: fromLatin1_def toHex_def toLatin1_def)
  then have "GetInputData (ValidateAndPreviewInputValue no_float no_double ?w) = toUtf8 [0xD800]"
    by (simp add: v GetInputData_def)
  then show ?thesis by (simp add: toLatin1_def is_high_surrogate_def)
qed


theorem ASCII_preview_and_bytes_witness:
  "GetInputData (ValidateAndPreviewInputValue no_float no_double
      (initial_widget\<lparr>m_input_combo := ASCII, m_data_edit := [0x41, 0xE9]\<rparr>)) =
     [0x41, 0xC3, 0xA9] \<and>
   m_data_preview (ValidateAndPreviewInputValue no_float no_double
      (initial_widget\<lparr>m_input_combo := ASCII, m_data_edit := [0x41, 0xE9]\<rparr>)) =
     qstr ''41 e9'' \<and>
   toLatin1 [0x41, 0xE9] = [0x41, 0xE9]"
proof -
  let ?w = "initial_widget\<lparr>m_input_combo := ASCII, m_data_edit := [0x41, 0xE9]\<rparr>"
  have c: "m_input_combo ?w = ASCII" and n: "m_data_edit ?w \<noteq> []" by simp_all
  have u: "toUtf8 [0x41, 0xE9] = [0x41, 0xC3, 0xA9]"
    by (simp add: to_bytes_eval)
  have l: "toLatin1 [0x41, 0xE9] = [0x41, 0xE9]"
    by (simp add: toLatin1_def)
  have h: "fromLatin1 (toHex [0x41, 0xE9]) = qstr ''41e9''"
    by (simp add: to_bytes_eval qstr_def)
  have p: "preview_of (qstr ''41e9'') = qstr ''41 e9''"
    by (simp add: preview_of_def insert_spaces.simps qinsert_def qstr_def)
  have e: "m_data_edit ?w = [0x41, 0xE9]" by simp
  note t = ASCII_preview_and_bytes[OF c n, of no_float no_double]
  have "GetInputData (ValidateAndPreviewInputValue no_float no_double ?w) =
          toUtf8 (m_data_edit ?w)"
    using t by blast
  then have 1: "GetInputData (ValidateAndPreviewInputValue no_float no_double ?w) =
          [0x41, 0xC3, 0xA9]"
    by (simp only: e u)
  have "m_data_preview (ValidateAndPreviewInputValue no_float no_double ?w) =
          preview_of (fromLatin1 (toHex (toLatin1 (m_data_edit ?w))))"
    using t by blast
  then have 2: "m_data_preview (ValidateAndPreviewInputValue no_float no_double ?w) =
          qstr ''41 e9''"
    by (simp only: e l h p)
  show ?thesis using 1 2 l by simp
qed

section \<open>Separating the bytes of the preview\<close>






lemma low_byte_only:
  fixes v :: "16 word"
  assumes "v AND 0xFF00 = 0"
  shows "unat v < 256"
proof -
  have n: "NOT (mask 8 :: 16 word) = 0xFF00" by (simp add: mask_eq_exp_minus_1 not_eq_complement)
  have "v = v AND (mask 8 OR NOT (mask 8))" by simp
  also have "\<dots> = (v AND mask 8) OR (v AND NOT (mask 8))" by (simp only: bit.conj_disj_distrib)
  also have "\<dots> = v AND mask 8" using assms n by simp
  finally have "v = v AND mask 8" .
  moreover have "v AND mask 8 < 2 ^ 8" by (rule and_mask_less_size) (simp add: word_size)
  ultimately have "v < 2 ^ 8" by simp
  then show ?thesis by (simp add: word_less_nat_alt)
qed





section \<open>Hexadecimal digits of bytes\<close>

lemma ucast_hex_digit_char:
  assumes "d < 16"
  shows "(ucast (hex_digit_char upper d :: 8 word) :: qchar) = hex_digit_char upper d"
proof -
  have "unat (ucast (hex_digit_char upper d :: 8 word) :: qchar) =
        take_bit 16 (unat (hex_digit_char upper d :: 8 word))"
    by (simp add: unsigned_ucast_eq)
  also have "\<dots> = unat (hex_digit_char upper d :: qchar)"
    using assms by (simp add: unat_hex_digit_char take_bit_eq_mod)
  finally show ?thesis by (simp add: word_unat_eq_iff)
qed

lemma fromLatin1_toHex:
  "fromLatin1 (toHex bs) =
     concat (map (\<lambda>b. [hex_digit_char False (unat b div 16),
                         hex_digit_char False (unat b mod 16)]) bs)"
proof (induction bs)
  case Nil
  show ?case by (simp add: fromLatin1_def toHex_def)
next
  case (Cons b bs)
  have "unat b < 256" using unsigned_less[of b, where 'a=nat] by simp
  then have "unat b div 16 < 16" "unat b mod 16 < 16" by simp_all
  then show ?case using Cons
    by (simp add: fromLatin1_def toHex_def ucast_hex_digit_char)
qed

lemma fromLatin1_toHex_hex: "list_all is_hex_char (fromLatin1 (toHex bs))"
proof -
  have "\<And>b :: 8 word. unat b div 16 < 16 \<and> unat b mod 16 < 16"
    using unsigned_less[where 'a=nat and 'b=8] by (simp add: less_mult_imp_div_less)
  then show ?thesis
    by (simp add: fromLatin1_toHex list_all_iff is_hex_char_hex_digit_char)
qed

lemma length_fromLatin1_toHex: "length (fromLatin1 (toHex bs)) = 2 * length bs"
  by (simp add: fromLatin1_def length_toHex)

lemma remove_spaces_hex: "list_all is_hex_char s \<Longrightarrow> remove_spaces s = s"
  by (induction s) (auto simp: remove_spaces_def is_hex_char_not_special)

section \<open>Texts accepted as hexadecimal byte strings\<close>


lemma is_hex_char_ascii: "is_hex_char c \<Longrightarrow> c < 0x80"
  by (auto simp: is_hex_char_unat word_less_nat_alt)


lemma fromHex_digit_space: "fromHex_digit 0x20 = None"
  by (simp add: fromHex_digit_def)

lemma filter_hex_remove_spaces:
  "filter (\<lambda>b. fromHex_digit b \<noteq> None) (map ucast (remove_spaces s)) =
   filter (\<lambda>b. fromHex_digit b \<noteq> None) (map ucast s)"
  by (induction s) (auto simp: remove_spaces_def fromHex_digit_space)

lemma fromHex_remove_spaces:
  assumes "\<forall>c \<in> set s. c < 0x80"
  shows "fromHex (toUtf8 (remove_spaces s)) = fromHex (toUtf8 s)"
proof -
  have "\<forall>c \<in> set (remove_spaces s). c < 0x80" using assms by (simp add: remove_spaces_def)
  then have "fromHex (toUtf8 (remove_spaces s)) = fromHex (map ucast (remove_spaces s))"
    by (simp add: toUtf8_ascii)
  also have "\<dots> = fromHex (filter (\<lambda>b. fromHex_digit b \<noteq> None) (map ucast (remove_spaces s)))"
    by (simp only: fromHex_filter)
  also have "\<dots> = fromHex (filter (\<lambda>b. fromHex_digit b \<noteq> None) (map ucast s))"
    by (simp only: filter_hex_remove_spaces)
  also have "\<dots> = fromHex (map ucast s)" by (simp only: fromHex_filter)
  also have "\<dots> = fromHex (toUtf8 s)" using assms by (simp add: toUtf8_ascii)
  finally show ?thesis .
qed


section \<open>The cut preview\<close>


section \<open>Numbers as big-endian bytes and as hexadecimal digits\<close>

lemma hex_digits_0: "hex_digits upper 0 = [0x30]"
  by (simp add: hex_digits.simps hex_digit_char_def)

lemma format_hex_1: "n < 16 \<Longrightarrow> format_hex upper (Suc 0) n = [hex_digit_char upper n]"
  by (simp add: format_hex_def hex_digits.simps)

lemma format_hex_Suc:
  assumes "0 < m"
  shows "format_hex upper (Suc m) n = format_hex upper m (n div 16) @ [hex_digit_char upper (n mod 16)]"
proof (cases "n < 16")
  case True
  have "replicate m (0x30 :: qchar) = replicate (m - 1) 0x30 @ [0x30]"
    using assms by (cases m) (simp_all add: replicate_append_same)
  then show ?thesis using True
    by (simp add: format_hex_def hex_digits.simps[of upper n] hex_digits_0)
next
  case False
  then show ?thesis
    by (simp add: format_hex_def hex_digits.simps[of upper n])
qed

lemma format_hex_2: "n < 256 \<Longrightarrow>
  format_hex upper 2 n = [hex_digit_char upper (n div 16), hex_digit_char upper (n mod 16)]"
proof -
  assume "n < 256"
  then have "n div 16 < 16" by simp
  then show ?thesis
    using format_hex_Suc[of 1 upper n] by (simp add: format_hex_1 numeral_2_eq_2)
qed

lemma unat_of_nat_byte: "unat (of_nat (n mod 256) :: 8 word) = n mod 256"
  by (simp add: unat_of_nat)

lemma format_hex_bytes:
  "n < 256 ^ Suc j \<Longrightarrow>
   format_hex upper (2 * Suc j) n =
     concat (map (\<lambda>b. [hex_digit_char upper (unat b div 16),
                         hex_digit_char upper (unat b mod 16)]) (be_bytes (Suc j) n))"
proof (induction j arbitrary: n)
  case 0
  have a: "n mod 256 div 16 = n div 16" "n mod 256 mod 16 = n mod 16" using 0 by simp_all
  show ?case using 0 by (simp add: format_hex_2 unat_of_nat a)
next
  case (Suc j)
  have d: "n div 256 < 256 ^ Suc j" using Suc.prems by (simp add: less_mult_imp_div_less mult.commute)
  have "n mod 256 div 16 = n div 16 mod 16"
    using mod_mult2_eq[of n 16 16] by simp
  then have a: "n mod 256 div 16 = n div 16 mod 16" .
  have b: "n mod 256 mod 16 = n mod 16"
    by (simp add: mod_mod_cancel)
  have "format_hex upper (2 * Suc (Suc j)) n = format_hex upper (Suc (Suc (2 * Suc j))) n" by simp
  also have "\<dots> = format_hex upper (Suc (2 * Suc j)) (n div 16) @ [hex_digit_char upper (n mod 16)]"
    by (rule format_hex_Suc) simp
  also have "format_hex upper (Suc (2 * Suc j)) (n div 16) =
      format_hex upper (2 * Suc j) (n div 16 div 16) @ [hex_digit_char upper (n div 16 mod 16)]"
    by (rule format_hex_Suc) simp
  finally have "format_hex upper (2 * Suc (Suc j)) n =
      format_hex upper (2 * Suc j) (n div 256) @
        [hex_digit_char upper (n div 16 mod 16), hex_digit_char upper (n mod 16)]"
    by (simp add: div_mult2_eq[symmetric])
  then show ?case using Suc.IH[OF d] by (simp add: unat_of_nat_byte a b)
qed


section \<open>Decoding the digits of bytes\<close>

lemma byte_of_nibbles:
  fixes b :: "8 word"
  shows "of_nat (unat b mod 16) OR push_bit 4 (of_nat (unat b div 16)) = b"
proof -
  have "unat b mod 16 = unat (take_bit 4 b)"
    by (simp add: unsigned_take_bit_eq take_bit_eq_mod unat_mod)
  then have l: "(of_nat (unat b mod 16) :: 8 word) = take_bit 4 b" by simp
  have "unat b div 16 = unat (drop_bit 4 b)"
    by (simp add: unat_drop_bit_eq drop_bit_eq_div unat_div)
  then have h: "(of_nat (unat b div 16) :: 8 word) = drop_bit 4 b" by simp
  have "take_bit 4 b OR push_bit 4 (drop_bit 4 b) = b"
  proof (rule bit_eqI)
    fix n :: nat
    have "4 \<le> n \<Longrightarrow> 4 + (n - 4) = n" by simp
    then show "bit (take_bit 4 b OR push_bit 4 (drop_bit 4 b)) n \<longleftrightarrow> bit b n"
      by (cases "n < 4") (auto simp: bit_simps dest: bit_imp_le_length)
  qed
  then show ?thesis by (simp only: l h)
qed

lemma ucast_down_hex_digit_char:
  assumes "d < 16"
  shows "(ucast (hex_digit_char upper d :: qchar) :: 8 word) = hex_digit_char upper d"
proof -
  have "unat (ucast (hex_digit_char upper d :: qchar) :: 8 word) =
        take_bit 8 (unat (hex_digit_char upper d :: qchar))"
    by (simp add: unsigned_ucast_eq)
  also have "\<dots> = unat (hex_digit_char upper d :: 8 word)"
    using assms by (simp add: unat_hex_digit_char take_bit_eq_mod)
  finally show ?thesis by (simp add: word_unat_eq_iff)
qed

lemma fromHex_digit_hex_digit_char:
  "d < 16 \<Longrightarrow> fromHex_digit (hex_digit_char upper d) = Some d"
  by (simp add: fromHex_digit_def unat_hex_digit_char Let_def)

lemma fromHex_loop_bytes:
  "fromHex_loop
     (rev (concat (map (\<lambda>b. [hex_digit_char upper (unat b div 16),
                               hex_digit_char upper (unat b mod 16)]) bs))) True res =
   bs @ res"
proof (induction bs arbitrary: res rule: rev_induct)
  case Nil
  show ?case by simp
next
  case (snoc b bs)
  have "unat b < 256" using unsigned_less[of b, where 'a=nat] by simp
  then have d: "unat b div 16 < 16" "unat b mod 16 < 16" by simp_all
  show ?case
    using snoc[of "b # res"]
    by (simp add: fromHex_digit_hex_digit_char[OF d(1)] fromHex_digit_hex_digit_char[OF d(2)]
        byte_of_nibbles)
qed

lemma fromHex_bytes:
  "fromHex (concat (map (\<lambda>b. [hex_digit_char upper (unat b div 16),
                                hex_digit_char upper (unat b mod 16)]) bs)) = bs"
  by (simp add: fromHex_def fromHex_loop_bytes)


section \<open>The bytes read back from a preview\<close>

lemma remove_spaces_qinsert: "remove_spaces (qinsert pos 0x20 s) = remove_spaces s"
proof -
  have "filter (\<lambda>c. c \<noteq> 0x20) (take pos s) @ filter (\<lambda>c. c \<noteq> 0x20) (drop pos s) =
        filter (\<lambda>c. c \<noteq> 0x20) s"
    by (metis append_take_drop_id filter_append)
  then show ?thesis by (simp add: remove_spaces_def qinsert_def)
qed

lemma remove_spaces_insert_spaces: "remove_spaces (insert_spaces i n s) = remove_spaces s"
proof (induction i n s rule: insert_spaces.induct)
  case (1 i output_length hex_string)
  show ?case
  proof (cases "i < output_length")
    case True
    then show ?thesis using "1.IH"[OF True]
      by (simp add: insert_spaces.simps[of i output_length hex_string] remove_spaces_qinsert)
  next
    case False
    then show ?thesis by (simp add: insert_spaces.simps[of i output_length hex_string])
  qed
qed

lemma set_insert_spaces: "set (insert_spaces i n s) \<subseteq> insert 0x20 (set s)"
proof (induction i n s rule: insert_spaces.induct)
  case (1 i output_length hex_string)
  show ?case
  proof (cases "i < output_length")
    case True
    have "set (qinsert (output_length - i) 0x20 hex_string) \<subseteq> insert 0x20 (set hex_string)"
      by (auto simp: qinsert_def dest: in_set_takeD in_set_dropD)
    then show ?thesis using "1.IH"[OF True] True
      by (auto simp: insert_spaces.simps[of i output_length hex_string])
  next
    case False
    then show ?thesis by (auto simp: insert_spaces.simps[of i output_length hex_string])
  qed
qed

lemma fromHex_preview_of:
  assumes "list_all is_hex_char hex_string" "length hex_string \<le> 16"
  shows "fromHex (toUtf8 (preview_of hex_string)) = fromHex (toUtf8 hex_string)"
proof -
  let ?p = "preview_of hex_string"
  have p: "?p = insert_spaces 2 (length hex_string) hex_string"
    using assms(2) by (simp add: preview_of_def)
  have r: "remove_spaces ?p = hex_string"
    using assms(1) by (simp add: p remove_spaces_insert_spaces remove_spaces_hex)
  have "\<forall>c \<in> set ?p. c < 0x80"
  proof
    fix c assume "c \<in> set ?p"
    then have "c = 0x20 \<or> c \<in> set hex_string" using set_insert_spaces p by fastforce
    then show "c < 0x80" using assms(1) is_hex_char_ascii by (auto simp: list_all_iff)
  qed
  then show ?thesis using fromHex_remove_spaces[of ?p] r by simp
qed

lemma toUtf8_format_hex:
  assumes "n < 256 ^ Suc j"
  shows "toUtf8 (format_hex upper (2 * Suc j) n) =
     concat (map (\<lambda>b. [hex_digit_char upper (unat b div 16),
                         hex_digit_char upper (unat b mod 16)]) (be_bytes (Suc j) n))"
proof -
  let ?f = "format_hex upper (2 * Suc j) n"
  have d: "\<And>b :: 8 word. unat b div 16 < 16 \<and> unat b mod 16 < 16"
    using unsigned_less[where 'a=nat and 'b=8] by (simp add: less_mult_imp_div_less)
  have "\<forall>c \<in> set ?f. c < 0x80"
    using format_hex_all_hex[of upper "2 * Suc j" n] is_hex_char_ascii
    by (auto simp: list_all_iff)
  then have "toUtf8 ?f = map ucast ?f" by (rule toUtf8_ascii)
  also have "\<dots> = map ucast (concat (map (\<lambda>b. [hex_digit_char upper (unat b div 16) :: qchar,
                         hex_digit_char upper (unat b mod 16)]) (be_bytes (Suc j) n)))"
    by (simp only: format_hex_bytes[OF assms])
  also have "\<dots> = concat (map (\<lambda>b. [hex_digit_char upper (unat b div 16),
                         hex_digit_char upper (unat b mod 16)]) (be_bytes (Suc j) n))"
    using d by (simp add: map_concat comp_def ucast_down_hex_digit_char)
  finally show ?thesis .
qed

lemma bytes_of_preview:
  assumes "n < 256 ^ Suc j" "2 * Suc j \<le> 16"
  shows "fromHex (toUtf8 (preview_of (format_hex upper (2 * Suc j) n))) = be_bytes (Suc j) n"
proof -
  have l: "length (format_hex upper (2 * Suc j) n) = 2 * Suc j"
  proof (rule length_format_hex)
    have "(256::nat) ^ Suc j = 16 ^ (2 * Suc j)" by (simp add: power_mult)
    then show "n < 16 ^ (2 * Suc j)" using assms(1) by simp
  qed simp
  have "fromHex (toUtf8 (preview_of (format_hex upper (2 * Suc j) n))) =
        fromHex (toUtf8 (format_hex upper (2 * Suc j) n))"
    using l assms(2) by (intro fromHex_preview_of format_hex_all_hex) simp
  then show ?thesis by (simp only: toUtf8_format_hex[OF assms(1)] fromHex_bytes)
qed

lemma hex_of_be_bytes:
  assumes "n < 256 ^ Suc j"
  shows "fromLatin1 (toHex (be_bytes (Suc j) n)) = format_hex False (2 * Suc j) n"
  by (simp only: fromLatin1_toHex format_hex_bytes[OF assms])


section \<open>Reading the digits of the bytes again\<close>

lemma toUShort_format_hex: "toUShort (format_hex upper width (unat (v :: 16 word))) 16 = (True, v)"
  using uint_lt2p[of v] by (simp add: toUShort_def qstrtoull_format_hex)

lemma toInt_format_hex:
  "n < 2 ^ 31 \<Longrightarrow> toInt (format_hex upper width n) 16 = (True, of_nat n)"
  by (simp add: toInt_def qstrtoll_format_hex)

lemma toShort_format_hex:
  "n < 2 ^ 15 \<Longrightarrow> toShort (format_hex upper width n) 16 = (True, of_nat n)"
  by (simp add: toShort_def qstrtoll_format_hex)

lemma hd_be_bytes:
  "n < 256 ^ Suc j \<Longrightarrow> hd (be_bytes (Suc j) n) < 0x80 \<Longrightarrow> n < 128 * 256 ^ j"
proof (induction j arbitrary: n)
  case 0
  then show ?case by (simp add: word_less_nat_alt unat_of_nat)
next
  case (Suc j)
  have d: "n div 256 < 256 ^ Suc j" using Suc.prems(1) by (simp add: less_mult_imp_div_less mult.commute)
  have "be_bytes (Suc j) (n div 256) \<noteq> []" by simp
  then have "hd (be_bytes (Suc (Suc j)) n) = hd (be_bytes (Suc j) (n div 256))"
    by (simp del: be_bytes.simps add: be_bytes.simps(2)[of "Suc j" n])
  then have "n div 256 < 128 * 256 ^ j" using Suc.IH[OF d] Suc.prems(2) by simp
  then show ?case by (simp add: div_less_iff_less_mult mult.commute)
qed


lemma text_of_preview:
  assumes "n < 256 ^ Suc j" "2 * Suc j \<le> 16"
  shows "fromLatin1 (toHex (fromHex (toUtf8 (preview_of (format_hex upper (2 * Suc j) n))))) =
         format_hex False (2 * Suc j) n"
  by (simp only: bytes_of_preview[OF assms] hex_of_be_bytes[OF assms(1)])

lemma text_of_preview_2:
  "n < 256 \<Longrightarrow>
   fromLatin1 (toHex (fromHex (toUtf8 (preview_of (format_hex upper 2 n))))) = format_hex False 2 n"
  using text_of_preview[of n 0 upper] by simp

lemma text_of_preview_4:
  "n < 65536 \<Longrightarrow>
   fromLatin1 (toHex (fromHex (toUtf8 (preview_of (format_hex upper 4 n))))) = format_hex False 4 n"
  using text_of_preview[of n 1 upper] by simp

lemma text_of_preview_8:
  "n < 4294967296 \<Longrightarrow>
   fromLatin1 (toHex (fromHex (toUtf8 (preview_of (format_hex upper 8 n))))) = format_hex False 8 n"
  using text_of_preview[of n 3 upper] by simp

lemma sign_of_preview_2:
  "n < 256 \<Longrightarrow> hd (fromHex (toUtf8 (preview_of (format_hex upper 2 n)))) < 0x80 \<Longrightarrow> n < 128"
  using bytes_of_preview[of n 0 upper] hd_be_bytes[of n 0] by simp

lemma sign_of_preview_4:
  "n < 65536 \<Longrightarrow> hd (fromHex (toUtf8 (preview_of (format_hex upper 4 n)))) < 0x80 \<Longrightarrow>
   n < 32768"
  using bytes_of_preview[of n 1 upper] hd_be_bytes[of n 1] by simp

lemma sign_of_preview_8:
  "n < 4294967296 \<Longrightarrow> hd (fromHex (toUtf8 (preview_of (format_hex upper 8 n)))) < 0x80 \<Longrightarrow>
   n < 2147483648"
  using bytes_of_preview[of n 3 upper] hd_be_bytes[of n 3] by simp

lemma sint_of_nat_small: "n < 2 ^ 15 \<Longrightarrow> sint (of_nat n :: 16 word) = int n"
  by (simp add: signed_of_nat signed_take_bit_int_eq_self)

lemma switch_round_trip:
  assumes "is_integer_type combo_id"
      and "switch_combo_id toFloat toDouble combo_id radix input_text = (True, hex_string)"
      and "combo_id = S8 \<or> combo_id = S16 \<or> combo_id = S32 \<longrightarrow>
             hd (fromHex (toUtf8 (preview_of hex_string))) < 0x80"
  shows "switch_combo_id toFloat toDouble combo_id 16
           (fromLatin1 (toHex (fromHex (toUtf8 (preview_of hex_string))))) = (True, hex_string)"
proof (cases combo_id)
  case U32
  obtain v :: "32 word" where h: "hex_string = format_hex True 8 (unat v)"
    using assms(2) U32 by (auto simp: Let_def split: prod.splits if_splits)
  have n: "unat v < 4294967296" using unsigned_less[of v, where 'a=nat] by simp
  show ?thesis using U32 by (simp add: h text_of_preview_8[OF n] toUInt_format_hex)
next
  case U16
  obtain v :: "16 word" where h: "hex_string = format_hex True 4 (unat v)"
    using assms(2) U16 by (auto simp: Let_def split: prod.splits if_splits)
  have n: "unat v < 65536" using unsigned_less[of v, where 'a=nat] by simp
  show ?thesis using U16 by (simp add: h text_of_preview_4[OF n] toUShort_format_hex)
next
  case U8
  obtain v :: "16 word" where h: "hex_string = format_hex True 2 (unat v)" and z: "v AND 0xFF00 = 0"
    using assms(2) U8 by (auto simp: Let_def split: prod.splits if_splits)
  have n: "unat v < 256" using low_byte_only[OF z] .
  show ?thesis using U8 z by (simp add: h text_of_preview_2[OF n] toUShort_format_hex)
next
  case S32
  obtain v :: "32 word" where h: "hex_string = format_hex True 8 (unat v)"
    using assms(2) S32 by (auto simp: Let_def split: prod.splits if_splits)
  have n: "unat v < 4294967296" using unsigned_less[of v, where 'a=nat] by simp
  have "unat v < 2147483648" using assms(3) S32 sign_of_preview_8[OF n] by (simp add: h)
  then have "toInt (format_hex False 8 (unat v)) 16 = (True, v)"
    using toInt_format_hex[of "unat v" False 8] by simp
  then show ?thesis using S32 by (simp add: h text_of_preview_8[OF n])
next
  case S16
  obtain v :: "16 word" where h: "hex_string = format_hex True 4 (unat v)"
    using assms(2) S16 by (auto simp: Let_def split: prod.splits if_splits)
  have n: "unat v < 65536" using unsigned_less[of v, where 'a=nat] by simp
  have "unat v < 32768" using assms(3) S16 sign_of_preview_4[OF n] by (simp add: h)
  then have "toShort (format_hex False 4 (unat v)) 16 = (True, v)"
    using toShort_format_hex[of "unat v" False 4] by simp
  then show ?thesis using S16 by (simp add: h text_of_preview_4[OF n])
next
  case S8
  obtain v :: "16 word" where h: "hex_string = format_hex True 2 (unat (ucast v :: 8 word))"
    using assms(2) S8 by (auto simp: Let_def split: prod.splits if_splits)
  let ?n = "unat (ucast v :: 8 word)"
  have n: "?n < 256" using unsigned_less[of "ucast v :: 8 word", where 'a=nat] by simp
  have s: "?n < 128" using assms(3) S8 sign_of_preview_2[OF n] by (simp add: h)
  then have p: "toShort (format_hex False 2 ?n) 16 = (True, of_nat ?n)"
    using toShort_format_hex[of ?n False 2] by simp
  have u: "unat (ucast (of_nat ?n :: 16 word) :: 8 word) = ?n"
    using n by (simp add: unsigned_ucast_eq unat_of_nat take_bit_eq_mod)
  have i: "sint (of_nat ?n :: 16 word) = int ?n"
    using s by (intro sint_of_nat_small) simp
  have "(ucast v :: 8 word) < 128" using s by (simp add: word_less_nat_alt)
  then have b: "uint (ucast v :: 8 word) < 128"
    by (simp add: word_less_def)
  have "0 \<le> uint (ucast v :: 8 word)" by simp
  then have g: "- 128 \<le> uint (ucast v :: 8 word)" by linarith
  show ?thesis using S8 s p u i b g by (simp add: h text_of_preview_2[OF n] Let_def)
qed (use assms(1) in \<open>simp_all add: is_integer_type_def\<close>)


section \<open>The round trip through the hexadecimal digits\<close>

lemma round_trip_accepted:
  assumes "is_integer_type (m_input_combo w)"
      and "GetInputData (ValidateAndPreviewInputValue toFloat toDouble w) = bytes"
      and "bytes \<noteq> []"
      and "m_input_combo w = S8 \<or> m_input_combo w = S16 \<or> m_input_combo w = S32 \<longrightarrow>
             hd bytes < 0x80"
  shows "GetInputData (ValidateAndPreviewInputValue toFloat toDouble
           (w\<lparr>m_data_edit := fromLatin1 (toHex bytes), m_base_check_checked := True\<rparr>)) = bytes \<and>
         m_data_preview (ValidateAndPreviewInputValue toFloat toDouble
           (w\<lparr>m_data_edit := fromLatin1 (toHex bytes), m_base_check_checked := True\<rparr>)) =
           m_data_preview (ValidateAndPreviewInputValue toFloat toDouble w) \<and>
         \<not> m_data_edit_bold_red (ValidateAndPreviewInputValue toFloat toDouble
           (w\<lparr>m_data_edit := fromLatin1 (toHex bytes), m_base_check_checked := True\<rparr>))"
proof -
  let ?c = "m_input_combo w"
  let ?v = "ValidateAndPreviewInputValue toFloat toDouble w"
  let ?t = "fromLatin1 (toHex bytes)"
  let ?w' = "w\<lparr>m_data_edit := ?t, m_base_check_checked := True\<rparr>"
  have na: "?c \<noteq> ASCII" "?c \<noteq> HEXSTR" using assms(1) by (auto simp: is_integer_type_def)
  have pn: "m_data_preview ?v \<noteq> []"
    using assms(2,3) by (auto simp: GetInputData_def)
  have en: "m_data_edit w \<noteq> []"
    using pn Validate_empty[of w toFloat toDouble] by auto
  obtain good hex_string where
    s: "switch_combo_id toFloat toDouble ?c
          (if m_base_check_checked w \<and> is_integer_type ?c then 16 else 0)
          (if ?c \<noteq> ASCII then remove_spaces (m_data_edit w) else m_data_edit w)
        = (good, hex_string)"
    by (cases "switch_combo_id toFloat toDouble ?c
          (if m_base_check_checked w \<and> is_integer_type ?c then 16 else 0)
          (if ?c \<noteq> ASCII then remove_spaces (m_data_edit w) else m_data_edit w)")
  have good: good
    using pn Validate_nonempty[OF en s] by (cases good) simp_all
  have pv: "m_data_preview ?v = preview_of hex_string"
    using Validate_nonempty[OF en s] good by simp
  have b: "bytes = fromHex (toUtf8 (preview_of hex_string))"
    using assms(2) pn na pv by (simp add: GetInputData_def Validate_fields)
  have tn: "?t \<noteq> []"
    using assms(3) length_fromLatin1_toHex[of bytes] by auto
  have tr: "remove_spaces ?t = ?t"
    by (rule remove_spaces_hex) (rule fromLatin1_toHex_hex)
  have rt: "switch_combo_id toFloat toDouble ?c 16 ?t = (True, hex_string)"
    unfolding b
  proof (rule switch_round_trip[OF assms(1)])
    show "switch_combo_id toFloat toDouble ?c
          (if m_base_check_checked w \<and> is_integer_type ?c then 16 else 0)
          (if ?c \<noteq> ASCII then remove_spaces (m_data_edit w) else m_data_edit w)
        = (True, hex_string)"
      using s good by simp
    show "?c = S8 \<or> ?c = S16 \<or> ?c = S32 \<longrightarrow>
            hd (fromHex (toUtf8 (preview_of hex_string))) < 0x80"
      using assms(4) b by simp
  qed
  have en': "m_data_edit ?w' \<noteq> []" using tn by simp
  have s': "switch_combo_id toFloat toDouble (m_input_combo ?w')
          (if m_base_check_checked ?w' \<and> is_integer_type (m_input_combo ?w') then 16 else 0)
          (if m_input_combo ?w' \<noteq> ASCII then remove_spaces (m_data_edit ?w')
           else m_data_edit ?w')
        = (True, hex_string)"
    using assms(1) na rt tr by simp
  have v': "ValidateAndPreviewInputValue toFloat toDouble ?w' =
      ?w'\<lparr>m_data_preview := preview_of hex_string,
            m_base_check_enabled := is_integer_type (m_input_combo ?w'),
            m_data_edit_bold_red := False\<rparr>"
    using Validate_nonempty[OF en' s'] by simp
  have "GetInputData (ValidateAndPreviewInputValue toFloat toDouble ?w') = bytes"
    using pn pv na b[symmetric] by (simp add: v' GetInputData_def)
  then show ?thesis using pv by (simp add: v')
qed

section \<open>Digits that are refused\<close>

lemma hd_be_bytes_ge:
  "n < 256 ^ Suc j \<Longrightarrow> \<not> hd (be_bytes (Suc j) n) < 0x80 \<Longrightarrow> 128 * 256 ^ j \<le> n"
proof (induction j arbitrary: n)
  case 0
  then show ?case by (simp add: word_less_nat_alt unat_of_nat)
next
  case (Suc j)
  have d: "n div 256 < 256 ^ Suc j" using Suc.prems(1) by (simp add: less_mult_imp_div_less mult.commute)
  have "be_bytes (Suc j) (n div 256) \<noteq> []" by simp
  then have "hd (be_bytes (Suc (Suc j)) n) = hd (be_bytes (Suc j) (n div 256))"
    by (simp del: be_bytes.simps add: be_bytes.simps(2)[of "Suc j" n])
  then have "128 * 256 ^ j \<le> n div 256" using Suc.IH[OF d] Suc.prems(2) by simp
  then have "128 * 256 ^ j * 256 \<le> n" by (simp add: less_eq_div_iff_mult_less_eq)
  then show ?case by (simp add: mult.commute mult.left_commute)
qed

lemma toShort_format_hex_large:
  "2 ^ 15 \<le> n \<Longrightarrow> toShort (format_hex upper width n) 16 = (False, 0)"
  by (simp add: toShort_def qstrtoll_format_hex)

lemma toInt_format_hex_large:
  "2 ^ 31 \<le> n \<Longrightarrow> toInt (format_hex upper width n) 16 = (False, 0)"
  by (simp add: toInt_def qstrtoll_format_hex)

lemma switch_negative:
  assumes "combo_id = S8 \<or> combo_id = S16 \<or> combo_id = S32"
      and "switch_combo_id toFloat toDouble combo_id radix input_text = (True, hex_string)"
      and "\<not> hd (fromHex (toUtf8 (preview_of hex_string))) < 0x80"
  shows "switch_combo_id toFloat toDouble combo_id 16
           (fromLatin1 (toHex (fromHex (toUtf8 (preview_of hex_string))))) = (False, [])"
proof -
  consider "combo_id = S8" | "combo_id = S16" | "combo_id = S32" using assms(1) by blast
  then show ?thesis
  proof cases
    case 3
    obtain v :: "32 word" where h: "hex_string = format_hex True 8 (unat v)"
      using assms(2) 3 by (auto simp: Let_def split: prod.splits if_splits)
    have n: "unat v < 256 ^ Suc 3" using unsigned_less[of v, where 'a=nat] by simp
    have b: "fromHex (toUtf8 (preview_of (format_hex True (2 * Suc 3) (unat v)))) =
             be_bytes (Suc 3) (unat v)"
      by (rule bytes_of_preview[OF n]) simp
    have "128 * 256 ^ 3 \<le> unat v"
      using hd_be_bytes_ge[OF n] assms(3) b by (simp add: h)
    then have "2 ^ 31 \<le> unat v" by simp
    then have "toInt (format_hex False 8 (unat v)) 16 = (False, 0)"
      by (rule toInt_format_hex_large)
    moreover have "unat v < 4294967296" using n by simp
    ultimately show ?thesis using 3 by (simp add: h text_of_preview_8)
  next
    case 2
    obtain v :: "16 word" where h: "hex_string = format_hex True 4 (unat v)"
      using assms(2) 2 by (auto simp: Let_def split: prod.splits if_splits)
    have n: "unat v < 256 ^ Suc 1" using unsigned_less[of v, where 'a=nat] by simp
    have b: "fromHex (toUtf8 (preview_of (format_hex True (2 * Suc 1) (unat v)))) =
             be_bytes (Suc 1) (unat v)"
      by (rule bytes_of_preview[OF n]) simp
    have "128 * 256 ^ 1 \<le> unat v"
      using hd_be_bytes_ge[OF n] assms(3) b by (simp add: h)
    then have "2 ^ 15 \<le> unat v" by simp
    then have "toShort (format_hex False 4 (unat v)) 16 = (False, 0)"
      by (rule toShort_format_hex_large)
    moreover have "unat v < 65536" using n by simp
    ultimately show ?thesis using 2 by (simp add: h text_of_preview_4)
  next
    case 1
    obtain v :: "16 word" where h: "hex_string = format_hex True 2 (unat (ucast v :: 8 word))"
      using assms(2) 1 by (auto simp: Let_def split: prod.splits if_splits)
    let ?n = "unat (ucast v :: 8 word)"
    have n: "?n < 256 ^ Suc 0" using unsigned_less[of "ucast v :: 8 word", where 'a=nat] by simp
    have b: "fromHex (toUtf8 (preview_of (format_hex True (2 * Suc 0) ?n))) = be_bytes (Suc 0) ?n"
      by (rule bytes_of_preview[OF n]) simp
    have "128 * 256 ^ 0 \<le> ?n"
      using hd_be_bytes_ge[OF n] assms(3) b by (simp add: h)
    then have g: "128 \<le> ?n" by simp
    have l: "?n < 2 ^ 15" using n by simp
    have p: "toShort (format_hex False 2 ?n) 16 = (True, of_nat ?n)"
      by (rule toShort_format_hex[OF l])
    have i: "sint (of_nat ?n :: 16 word) = int ?n" by (rule sint_of_nat_small[OF l])
    have "\<not> sint (of_nat ?n :: 16 word) \<le> 127" using g by (simp only: i)
    moreover have "?n < 256" using n by simp
    ultimately show ?thesis using 1 p
      by (simp only: h text_of_preview_2 switch_combo_id.simps Let_def prod.case simp_thms
          if_False)
  qed
qed


lemma round_trip_refused:
  assumes "m_input_combo w = S8 \<or> m_input_combo w = S16 \<or> m_input_combo w = S32"
      and "GetInputData (ValidateAndPreviewInputValue toFloat toDouble w) = bytes"
      and "bytes \<noteq> []"
      and "\<not> hd bytes < 0x80"
  shows "ValidateAndPreviewInputValue toFloat toDouble
           (w\<lparr>m_data_edit := fromLatin1 (toHex bytes), m_base_check_checked := True\<rparr>) =
         w\<lparr>m_data_edit := fromLatin1 (toHex bytes), m_base_check_checked := True,
           m_data_preview := [], m_base_check_enabled := True, m_data_edit_bold_red := True\<rparr>"
proof -
  let ?c = "m_input_combo w"
  let ?v = "ValidateAndPreviewInputValue toFloat toDouble w"
  let ?t = "fromLatin1 (toHex bytes)"
  let ?w' = "w\<lparr>m_data_edit := ?t, m_base_check_checked := True\<rparr>"
  have it: "is_integer_type ?c" using assms(1) by (auto simp: is_integer_type_def)
  have na: "?c \<noteq> ASCII" "?c \<noteq> HEXSTR" using assms(1) by auto
  have pn: "m_data_preview ?v \<noteq> []"
    using assms(2,3) by (auto simp: GetInputData_def)
  have en: "m_data_edit w \<noteq> []"
    using pn Validate_empty[of w toFloat toDouble] by auto
  obtain good hex_string where
    s: "switch_combo_id toFloat toDouble ?c
          (if m_base_check_checked w \<and> is_integer_type ?c then 16 else 0)
          (if ?c \<noteq> ASCII then remove_spaces (m_data_edit w) else m_data_edit w)
        = (good, hex_string)"
    by (cases "switch_combo_id toFloat toDouble ?c
          (if m_base_check_checked w \<and> is_integer_type ?c then 16 else 0)
          (if ?c \<noteq> ASCII then remove_spaces (m_data_edit w) else m_data_edit w)")
  have good: good
    using pn Validate_nonempty[OF en s] by (cases good) simp_all
  have pv: "m_data_preview ?v = preview_of hex_string"
    using Validate_nonempty[OF en s] good by simp
  have b: "bytes = fromHex (toUtf8 (preview_of hex_string))"
    using assms(2) pn na pv by (simp add: GetInputData_def Validate_fields)
  have tn: "?t \<noteq> []"
    using assms(3) length_fromLatin1_toHex[of bytes] by auto
  have tr: "remove_spaces ?t = ?t"
    by (rule remove_spaces_hex) (rule fromLatin1_toHex_hex)
  have rt: "switch_combo_id toFloat toDouble ?c 16 ?t = (False, [])"
    unfolding b
  proof (rule switch_negative[OF assms(1)])
    show "switch_combo_id toFloat toDouble ?c
          (if m_base_check_checked w \<and> is_integer_type ?c then 16 else 0)
          (if ?c \<noteq> ASCII then remove_spaces (m_data_edit w) else m_data_edit w)
        = (True, hex_string)"
      using s good by simp
    show "\<not> hd (fromHex (toUtf8 (preview_of hex_string))) < 0x80"
      using assms(4) b by simp
  qed
  have en': "m_data_edit ?w' \<noteq> []" using tn by simp
  have s': "switch_combo_id toFloat toDouble (m_input_combo ?w')
          (if m_base_check_checked ?w' \<and> is_integer_type (m_input_combo ?w') then 16 else 0)
          (if m_input_combo ?w' \<noteq> ASCII then remove_spaces (m_data_edit ?w')
           else m_data_edit ?w')
        = (False, [])"
    using it na rt tr by simp
  show ?thesis using Validate_nonempty[OF en' s'] it by simp
qed

section \<open>Digits read as a floating-point numeral\<close>

lemma Validate_FLOAT:
  assumes "m_input_combo w = FLOAT" "m_data_edit w \<noteq> []"
  shows "GetInputData (ValidateAndPreviewInputValue toFloat toDouble w) =
           (if fst (toFloat (remove_spaces (m_data_edit w)))
            then be_bytes 4 (unat (snd (toFloat (remove_spaces (m_data_edit w))))) else [])"
proof -
  let ?t = "remove_spaces (m_data_edit w)"
  obtain good hex_out where f: "toFloat ?t = (good, hex_out)" by (cases "toFloat ?t")
  have n: "unat hex_out < 256 ^ Suc 3" using unsigned_less[of hex_out, where 'a=nat] by simp
  have b: "fromHex (toUtf8 (preview_of (format_hex True (2 * Suc 3) (unat hex_out)))) =
           be_bytes (Suc 3) (unat hex_out)"
    by (rule bytes_of_preview[OF n]) simp
  have s: "switch_combo_id toFloat toDouble (m_input_combo w)
          (if m_base_check_checked w \<and> is_integer_type (m_input_combo w) then 16 else 0)
          (if m_input_combo w \<noteq> ASCII then remove_spaces (m_data_edit w) else m_data_edit w)
        = (good, if good then format_hex True 8 (unat hex_out) else [])"
    using assms(1) f by simp
  have p: "preview_of (format_hex True 8 (unat hex_out)) \<noteq> []"
    by (rule preview_of_nonempty) (rule format_hex_nonempty)
  show ?thesis
    using Validate_nonempty[OF assms(2) s] assms(1) f b p
    by (simp add: GetInputData_def)
qed

lemma Validate_DOUBLE:
  assumes "m_input_combo w = DOUBLE" "m_data_edit w \<noteq> []"
  shows "GetInputData (ValidateAndPreviewInputValue toFloat toDouble w) =
           (if fst (toDouble (remove_spaces (m_data_edit w)))
            then be_bytes 8 (unat (snd (toDouble (remove_spaces (m_data_edit w))))) else [])"
proof -
  let ?t = "remove_spaces (m_data_edit w)"
  obtain good hex_out where f: "toDouble ?t = (good, hex_out)" by (cases "toDouble ?t")
  have n: "unat hex_out < 256 ^ Suc 7" using unsigned_less[of hex_out, where 'a=nat] by simp
  have b: "fromHex (toUtf8 (preview_of (format_hex True (2 * Suc 7) (unat hex_out)))) =
           be_bytes (Suc 7) (unat hex_out)"
    by (rule bytes_of_preview[OF n]) simp
  have s: "switch_combo_id toFloat toDouble (m_input_combo w)
          (if m_base_check_checked w \<and> is_integer_type (m_input_combo w) then 16 else 0)
          (if m_input_combo w \<noteq> ASCII then remove_spaces (m_data_edit w) else m_data_edit w)
        = (good, if good then format_hex True 16 (unat hex_out) else [])"
    using assms(1) f by simp
  have p: "preview_of (format_hex True 16 (unat hex_out)) \<noteq> []"
    by (rule preview_of_nonempty) (rule format_hex_nonempty)
  show ?thesis
    using Validate_nonempty[OF assms(2) s] assms(1) f b p
    by (simp add: GetInputData_def)
qed

lemma is_hex_char_not_n: "is_hex_char c \<Longrightarrow> c \<noteq> 0x6E \<and> c \<noteq> 0x4E"
  by (auto simp: is_hex_char_def)

lemma float_text_hex:
  assumes "list_all is_hex_char s" "\<exists>c \<in> set s. \<not> is_float_char c"
  shows "\<not> float_text s"
proof -
  have "trimmed s = s" by (rule trimmed_hex[OF assms(1)])
  moreover have "\<not> list_all is_float_char s" using assms(2) by (auto simp: list_all_iff)
  moreover have "0x6E \<notin> set s \<and> 0x4E \<notin> set s"
    using assms(1) is_hex_char_not_n by (auto simp: list_all_iff)
  ultimately show ?thesis by (simp add: float_text_def)
qed

lemma float_digits_refused:
  assumes "m_input_combo w = FLOAT \<or> m_input_combo w = DOUBLE"
      and "bytes \<noteq> []"
      and "\<exists>c \<in> set (fromLatin1 (toHex bytes)). \<not> is_float_char c"
  shows "ValidateAndPreviewInputValue (QString_toFloat convf) (QString_toFloat convd)
           (w\<lparr>m_data_edit := fromLatin1 (toHex bytes)\<rparr>) =
         w\<lparr>m_data_edit := fromLatin1 (toHex bytes), m_data_preview := [],
           m_base_check_enabled := False, m_data_edit_bold_red := True\<rparr>"
proof -
  let ?t = "fromLatin1 (toHex bytes)"
  let ?w' = "w\<lparr>m_data_edit := ?t\<rparr>"
  have tn: "?t \<noteq> []"
    using assms(2) length_fromLatin1_toHex[of bytes] by auto
  have tr: "remove_spaces ?t = ?t"
    by (rule remove_spaces_hex) (rule fromLatin1_toHex_hex)
  have nf: "\<not> float_text ?t"
    by (rule float_text_hex[OF fromLatin1_toHex_hex assms(3)])
  have en': "m_data_edit ?w' \<noteq> []" using tn by simp
  have ni: "\<not> is_integer_type (m_input_combo w)" using assms(1) by (auto simp: is_integer_type_def)
  have s': "switch_combo_id (QString_toFloat convf) (QString_toFloat convd) (m_input_combo ?w')
          (if m_base_check_checked ?w' \<and> is_integer_type (m_input_combo ?w') then 16 else 0)
          (if m_input_combo ?w' \<noteq> ASCII then remove_spaces (m_data_edit ?w')
           else m_data_edit ?w')
        = (False, [])"
    using assms(1) tr nf by (auto simp: QString_toFloat_def)
  show ?thesis using Validate_nonempty[OF en' s'] ni by simp
qed


section \<open>Digits read with another base\<close>

lemma length_be_bytes: "length (be_bytes j n) = j"
  by (induction j arbitrary: n) simp_all

lemma digits_to_nat_le:
  "digits_to_nat b a ds = Some m \<Longrightarrow> digits_to_nat 16 a' ds = Some n \<Longrightarrow> b \<le> 16 \<Longrightarrow>
   a \<le> a' \<Longrightarrow> m \<le> n"
proof (induction ds arbitrary: a a')
  case Nil
  then show ?case by simp
next
  case (Cons c cs)
  obtain d where d: "digit_of c = Some d" "d < b" "d < 16"
    using Cons.prems(1,3) by (auto split: option.splits if_splits)
  have "a * b \<le> a' * 16" using Cons.prems(3,4) by (rule_tac mult_le_mono) simp_all
  then have "a * b + d \<le> a' * 16 + d" by simp
  then show ?case using Cons.IH[of "a * b + d" "a' * 16 + d"] Cons.prems d by simp
qed

lemma digits_to_nat_less:
  "digits_to_nat b a ds = Some m \<Longrightarrow> digits_to_nat 16 a' ds = Some n \<Longrightarrow> b < 16 \<Longrightarrow>
   a \<le> a' \<Longrightarrow> a < a' \<or> (0 < a' \<and> ds \<noteq> []) \<Longrightarrow> m < n"
proof (induction ds arbitrary: a a')
  case Nil
  then show ?case by simp
next
  case (Cons c cs)
  obtain d where d: "digit_of c = Some d" "d < b" "d < 16"
    using Cons.prems(1,3) by (auto split: option.splits if_splits)
  have "0 < a'" using Cons.prems(5) by auto
  then have "a' * b < a' * 16" using Cons.prems(3) by simp
  moreover have "a * b \<le> a' * b" using Cons.prems(4) by simp
  ultimately have "a * b < a' * 16" by (rule le_less_trans[rotated])
  then have l: "a * b + d < a' * 16 + d" by simp
  show ?case using Cons.IH[of "a * b + d" "a' * 16 + d"] Cons.prems(1,2,3) d l by simp
qed

lemma digits_to_nat_same:
  "digits_to_nat b 0 ds = Some m \<Longrightarrow> digits_to_nat 16 0 ds = Some n \<Longrightarrow> 0 < b \<Longrightarrow> b < 16 \<Longrightarrow>
   m \<le> n \<and> (m = n \<longrightarrow> n < b)"
proof (induction ds)
  case Nil
  then show ?case by simp
next
  case (Cons c cs)
  obtain d where d: "digit_of c = Some d" "d < b" "d < 16"
    using Cons.prems(1,4) by (auto split: option.splits if_splits)
  have m: "digits_to_nat b d cs = Some m" and n: "digits_to_nat 16 d cs = Some n"
    using Cons.prems(1,2) d by simp_all
  show ?case
  proof (cases "d = 0")
    case True
    then show ?thesis using Cons.IH m n Cons.prems(3,4) by simp
  next
    case False
    show ?thesis
    proof (cases "cs = []")
      case True
      then show ?thesis using m n d by simp
    next
      case ne: False
      have "m < n"
        using digits_to_nat_less[OF m n Cons.prems(4)] False ne by simp
      then show ?thesis by simp
    qed
  qed
qed

lemma digits_to_nat_zeros_8: "digits_to_nat 8 0 (replicate k 0x30) = Some 0"
  by (induction k) (simp_all add: digit_of_def)

lemma format_hex_small:
  assumes "n < 16"
  shows "format_hex upper width n = replicate (width - 1) 0x30 @ [hex_digit_char upper n]"
  using assms by (simp add: format_hex_def hex_digits.simps[of upper n])

lemma take_1_replicate: "0 < k \<Longrightarrow> take 1 (replicate k x @ ys) = [x]"
  by (cases k) simp_all

lemma parse_magnitude_0_hex:
  assumes "list_all is_hex_char s" "s \<noteq> []"
  shows "parse_magnitude 0 s =
           (if take 1 s = [0x30] then digits_to_nat 8 0 s else digits_to_nat 10 0 s)"
  using assms no_hex_prefix_hex[OF assms(1)] by (simp add: parse_magnitude_def)

lemma parse_magnitude_0_format_hex:
  assumes "2 \<le> width" "parse_magnitude 0 (format_hex upper width n) = Some m"
  shows "m \<le> n \<and> (m = n \<longrightarrow> n < 8)"
proof -
  let ?t = "format_hex upper width n"
  have h: "digits_to_nat 16 0 ?t = Some n" by (rule digits_to_nat_format_hex)
  have p: "parse_magnitude 0 ?t =
           (if take 1 ?t = [0x30] then digits_to_nat 8 0 ?t else digits_to_nat 10 0 ?t)"
    by (rule parse_magnitude_0_hex) (simp_all add: format_hex_all_hex format_hex_nonempty)
  show ?thesis
  proof (cases "take 1 ?t = [0x30]")
    case True
    then have "digits_to_nat 8 0 ?t = Some m" using assms(2) p by simp
    then show ?thesis using digits_to_nat_same[OF _ h, of 8 m] by simp
  next
    case False
    then have d: "digits_to_nat 10 0 ?t = Some m" using assms(2) p by simp
    have "16 \<le> n"
    proof (rule ccontr)
      assume "\<not> 16 \<le> n"
      then have "n < 16" by simp
      then have "?t = replicate (width - 1) 0x30 @ [hex_digit_char upper n]"
        by (rule format_hex_small)
      then have "take 1 ?t = [0x30]" using assms(1) take_1_replicate[of "width - 1"] by simp
      then show False using False by simp
    qed
    then show ?thesis using digits_to_nat_same[OF d h] by auto
  qed
qed

lemma parse_magnitude_0_small:
  assumes "2 \<le> width" "n < 8"
  shows "parse_magnitude 0 (format_hex upper width n) = Some n"
proof -
  let ?t = "format_hex upper width n"
  have f: "?t = replicate (width - 1) 0x30 @ [hex_digit_char upper n]"
    using assms(2) by (intro format_hex_small) simp
  have t: "take 1 ?t = [0x30]" using assms(1) take_1_replicate[of "width - 1"] by (simp add: f)
  have p: "parse_magnitude 0 ?t =
           (if take 1 ?t = [0x30] then digits_to_nat 8 0 ?t else digits_to_nat 10 0 ?t)"
    by (rule parse_magnitude_0_hex) (simp_all add: format_hex_all_hex format_hex_nonempty)
  have "n < 16" using assms(2) by simp
  then have "digits_to_nat 8 0 ?t = Some n"
    using assms(2)
    by (simp add: f digits_to_nat_append digits_to_nat_zeros_8 digit_of_hex_digit_char)
  then show ?thesis using p t by simp
qed

lemma qstrtoull_0_hex:
  assumes "list_all is_hex_char s" "s \<noteq> []"
  shows "qstrtoull s 0 = map_option int (parse_magnitude 0 s)"
proof -
  obtain c cs where s: "s = c # cs" using assms(2) by (cases s) auto
  have "is_hex_char c" using assms(1) s by simp
  then have "c \<noteq> 0x2D" "c \<noteq> 0x2B" by (simp_all add: is_hex_char_not_special)
  then show ?thesis
    using trimmed_hex[OF assms(1)] s by (simp add: qstrtoull_def)
qed

lemma qstrtoll_0_hex:
  assumes "list_all is_hex_char s" "s \<noteq> []"
  shows "qstrtoll s 0 = map_option int (parse_magnitude 0 s)"
proof -
  obtain c cs where s: "s = c # cs" using assms(2) by (cases s) auto
  have "is_hex_char c" using assms(1) s by simp
  then have "c \<noteq> 0x2D" "c \<noteq> 0x2B" by (simp_all add: is_hex_char_not_special)
  then show ?thesis
    using trimmed_hex[OF assms(1)] s by (simp add: qstrtoll_def)
qed


lemma high_byte_zero:
  fixes v :: "16 word"
  assumes "unat v < 256"
  shows "v AND 0xFF00 = 0"
proof -
  have "v < 2 ^ 8" using assms by (simp add: word_less_nat_alt)
  then have "v AND mask 8 = v" by (simp add: less_mask_eq)
  then have "v AND 0xFF00 = (v AND mask 8) AND 0xFF00" by simp
  also have "\<dots> = v AND (mask 8 AND 0xFF00)" by (simp only: and.assoc)
  also have "(mask 8 AND 0xFF00 :: 16 word) = 0" by (simp add: mask_eq_exp_minus_1)
  finally show ?thesis by simp
qed

lemma switch_radix_0:
  assumes "is_integer_type combo_id" "list_all is_hex_char t" "t \<noteq> []"
  shows "switch_combo_id toFloat toDouble combo_id 0 t =
           (case parse_magnitude 0 t of
              None \<Rightarrow> (False, [])
            | Some m \<Rightarrow>
                if m < value_limit combo_id
                then (True, format_hex True (2 * value_bytes combo_id) m)
                else (False, []))"
proof (cases "parse_magnitude 0 t")
  case None
  then have "qstrtoull t 0 = None" "qstrtoll t 0 = None"
    using qstrtoull_0_hex[OF assms(2,3)] qstrtoll_0_hex[OF assms(2,3)] by simp_all
  then show ?thesis using None assms(1)
    by (cases combo_id)
       (simp_all add: is_integer_type_def toUInt_def toInt_def toShort_def toUShort_def)
next
  case (Some m)
  then have u: "qstrtoull t 0 = Some (int m)" and l: "qstrtoll t 0 = Some (int m)"
    using qstrtoull_0_hex[OF assms(2,3)] qstrtoll_0_hex[OF assms(2,3)] by simp_all
  show ?thesis
  proof (cases combo_id)
    case U32
    show ?thesis
    proof (cases "m < 4294967296")
      case True
      then have "unat (of_nat m :: 32 word) = m" by (simp add: unat_of_nat)
      then show ?thesis using U32 Some u True by (simp add: toUInt_def)
    next
      case False
      then show ?thesis using U32 Some u by (simp add: toUInt_def)
    qed
  next
    case S32
    show ?thesis
    proof (cases "m < 2147483648")
      case True
      then have "unat (of_nat m :: 32 word) = m" by (simp add: unat_of_nat)
      then show ?thesis using S32 Some l True by (simp add: toInt_def)
    next
      case False
      then show ?thesis using S32 Some l by (simp add: toInt_def)
    qed
  next
    case U16
    show ?thesis
    proof (cases "m < 65536")
      case True
      then have "unat (of_nat m :: 16 word) = m" by (simp add: unat_of_nat)
      then show ?thesis using U16 Some u True by (simp add: toUShort_def)
    next
      case False
      then show ?thesis using U16 Some u by (simp add: toUShort_def)
    qed
  next
    case S16
    show ?thesis
    proof (cases "m < 32768")
      case True
      then have "unat (of_nat m :: 16 word) = m" by (simp add: unat_of_nat)
      then show ?thesis using S16 Some l True by (simp add: toShort_def)
    next
      case False
      then show ?thesis using S16 Some l by (simp add: toShort_def)
    qed
  next
    case U8
    show ?thesis
    proof (cases "m < 65536")
      case True
      then have n: "unat (of_nat m :: 16 word) = m" by (simp add: unat_of_nat)
      have p: "toUShort t 0 = (True, of_nat m)" using u True by (simp add: toUShort_def)
      show ?thesis
      proof (cases "m < 256")
        case s: True
        then have "(of_nat m :: 16 word) AND 0xFF00 = 0" using n by (intro high_byte_zero) simp
        then show ?thesis using U8 Some p s n
          by (simp only: switch_combo_id.simps Let_def prod.case value_limit.simps
              value_bytes.simps option.case simp_thms if_True mult_1_right)
      next
        case b: False
        then have "(of_nat m :: 16 word) AND 0xFF00 \<noteq> 0"
          using low_byte_only[of "of_nat m :: 16 word"] n by auto
        then show ?thesis using U8 Some p b
          by (simp only: switch_combo_id.simps Let_def prod.case value_limit.simps
              value_bytes.simps option.case simp_thms if_False)
      qed
    next
      case False
      then show ?thesis using U8 Some u by (simp add: toUShort_def)
    qed
  next
    case S8
    show ?thesis
    proof (cases "m < 32768")
      case True
      then have i: "sint (of_nat m :: 16 word) = int m" by (intro sint_of_nat_small) simp
      have p: "toShort t 0 = (True, of_nat m)" using l True by (simp add: toShort_def)
      show ?thesis
      proof (cases "m < 128")
        case s: True
        then have c: "unat (ucast (of_nat m :: 16 word) :: 8 word) = m"
          by (simp add: unsigned_ucast_eq unat_of_nat take_bit_eq_mod)
        have r: "- 128 \<le> sint (of_nat m :: 16 word) \<and> sint (of_nat m :: 16 word) \<le> 127"
          using s by (simp only: i) simp
        show ?thesis using S8 Some p s c r
          by (simp only: switch_combo_id.simps Let_def prod.case value_limit.simps
              value_bytes.simps option.case simp_thms if_True mult_1_right)
      next
        case b: False
        then have r: "\<not> sint (of_nat m :: 16 word) \<le> 127" by (simp only: i)
        show ?thesis using S8 Some p b r
          by (simp only: switch_combo_id.simps Let_def prod.case value_limit.simps
              value_bytes.simps option.case simp_thms if_False)
      qed
    next
      case False
      then show ?thesis using S8 Some l by (simp add: toShort_def)
    qed
  qed (use assms(1) in \<open>simp_all add: is_integer_type_def\<close>)
qed


lemma be_bytes_inject:
  "a < 256 ^ j \<Longrightarrow> b < 256 ^ j \<Longrightarrow> be_bytes j a = be_bytes j b \<Longrightarrow> a = b"
proof (induction j arbitrary: a b)
  case 0
  then show ?case by simp
next
  case (Suc j)
  have l: "length (be_bytes j (a div 256)) = length (be_bytes j (b div 256))"
    by (simp add: length_be_bytes)
  have e: "be_bytes j (a div 256) = be_bytes j (b div 256)"
    and f: "(of_nat (a mod 256) :: 8 word) = of_nat (b mod 256)"
    using Suc.prems(3) l by simp_all
  have "a div 256 < 256 ^ j" "b div 256 < 256 ^ j"
    using Suc.prems(1,2) by (simp_all add: less_mult_imp_div_less mult.commute)
  then have d: "a div 256 = b div 256" using Suc.IH e by blast
  have "unat (of_nat (a mod 256) :: 8 word) = unat (of_nat (b mod 256) :: 8 word)"
    using f by simp
  then have m: "a mod 256 = b mod 256" by (simp add: unat_of_nat)
  show ?case using d m by (metis div_mult_mod_eq)
qed

lemma switch_integer_form:
  assumes "is_integer_type combo_id"
      and "switch_combo_id toFloat toDouble combo_id radix input_text = (True, hex_string)"
  shows "\<exists>n. hex_string = format_hex True (2 * value_bytes combo_id) n \<and>
             n < 256 ^ value_bytes combo_id"
proof (cases combo_id)
  case U32
  obtain v :: "32 word" where h: "hex_string = format_hex True 8 (unat v)"
    using assms(2) U32 by (auto simp: Let_def split: prod.splits if_splits)
  have "unat v < 256 ^ 4" using unsigned_less[of v, where 'a=nat] by simp
  then show ?thesis using h U32 by (intro exI[of _ "unat v"]) simp
next
  case S32
  obtain v :: "32 word" where h: "hex_string = format_hex True 8 (unat v)"
    using assms(2) S32 by (auto simp: Let_def split: prod.splits if_splits)
  have "unat v < 256 ^ 4" using unsigned_less[of v, where 'a=nat] by simp
  then show ?thesis using h S32 by (intro exI[of _ "unat v"]) simp
next
  case U16
  obtain v :: "16 word" where h: "hex_string = format_hex True 4 (unat v)"
    using assms(2) U16 by (auto simp: Let_def split: prod.splits if_splits)
  have "unat v < 256 ^ 2" using unsigned_less[of v, where 'a=nat] by simp
  then show ?thesis using h U16 by (intro exI[of _ "unat v"]) simp
next
  case S16
  obtain v :: "16 word" where h: "hex_string = format_hex True 4 (unat v)"
    using assms(2) S16 by (auto simp: Let_def split: prod.splits if_splits)
  have "unat v < 256 ^ 2" using unsigned_less[of v, where 'a=nat] by simp
  then show ?thesis using h S16 by (intro exI[of _ "unat v"]) simp
next
  case U8
  obtain v :: "16 word" where h: "hex_string = format_hex True 2 (unat v)" and z: "v AND 0xFF00 = 0"
    using assms(2) U8 by (auto simp: Let_def split: prod.splits if_splits)
  have "unat v < 256 ^ 1" using low_byte_only[OF z] by simp
  then show ?thesis using h U8 by (intro exI[of _ "unat v"]) simp
next
  case S8
  obtain v :: "16 word" where h: "hex_string = format_hex True 2 (unat (ucast v :: 8 word))"
    using assms(2) S8 by (auto simp: Let_def split: prod.splits if_splits)
  have "unat (ucast v :: 8 word) < 256 ^ 1"
    using unsigned_less[of "ucast v :: 8 word", where 'a=nat] by simp
  then show ?thesis using h S8 by (intro exI[of _ "unat (ucast v :: 8 word)"]) simp
qed (use assms(1) in \<open>simp_all add: is_integer_type_def\<close>)

lemma value_bytes_integer:
  "is_integer_type combo_id \<Longrightarrow>
   0 < value_bytes combo_id \<and> 2 * value_bytes combo_id \<le> 16 \<and> 8 < value_limit combo_id \<and>
   value_limit combo_id \<le> 256 ^ value_bytes combo_id"
  by (cases combo_id) (simp_all add: is_integer_type_def)

lemma round_trip_unchecked:
  assumes "is_integer_type (m_input_combo w)"
      and "GetInputData (ValidateAndPreviewInputValue toFloat toDouble w) = bytes"
      and "bytes \<noteq> []"
  shows "GetInputData (ValidateAndPreviewInputValue toFloat toDouble
           (w\<lparr>m_data_edit := fromLatin1 (toHex bytes), m_base_check_checked := False\<rparr>)) = bytes
         \<longleftrightarrow> (\<exists>k<8. bytes = be_bytes (length bytes) k)"
proof -
  let ?c = "m_input_combo w"
  let ?v = "ValidateAndPreviewInputValue toFloat toDouble w"
  let ?t = "fromLatin1 (toHex bytes)"
  let ?w' = "w\<lparr>m_data_edit := ?t, m_base_check_checked := False\<rparr>"
  have na: "?c \<noteq> ASCII" "?c \<noteq> HEXSTR" using assms(1) by (auto simp: is_integer_type_def)
  have pn: "m_data_preview ?v \<noteq> []"
    using assms(2,3) by (auto simp: GetInputData_def)
  have en: "m_data_edit w \<noteq> []"
    using pn Validate_empty[of w toFloat toDouble] by auto
  obtain good hex_string where
    s: "switch_combo_id toFloat toDouble ?c
          (if m_base_check_checked w \<and> is_integer_type ?c then 16 else 0)
          (if ?c \<noteq> ASCII then remove_spaces (m_data_edit w) else m_data_edit w)
        = (good, hex_string)"
    by (cases "switch_combo_id toFloat toDouble ?c
          (if m_base_check_checked w \<and> is_integer_type ?c then 16 else 0)
          (if ?c \<noteq> ASCII then remove_spaces (m_data_edit w) else m_data_edit w)")
  have good: good
    using pn Validate_nonempty[OF en s] by (cases good) simp_all
  have pv: "m_data_preview ?v = preview_of hex_string"
    using Validate_nonempty[OF en s] good by simp
  have b: "bytes = fromHex (toUtf8 (preview_of hex_string))"
    using assms(2) pn na pv by (simp add: GetInputData_def Validate_fields)
  have s1: "switch_combo_id toFloat toDouble ?c
          (if m_base_check_checked w \<and> is_integer_type ?c then 16 else 0)
          (if ?c \<noteq> ASCII then remove_spaces (m_data_edit w) else m_data_edit w)
        = (True, hex_string)"
    using s good by simp
  obtain n where h: "hex_string = format_hex True (2 * value_bytes ?c) n"
    and n: "n < 256 ^ value_bytes ?c"
    using switch_integer_form[OF assms(1) s1] by blast
  note vb = value_bytes_integer[OF assms(1)]
  obtain j where j: "value_bytes ?c = Suc j" using vb by (cases "value_bytes ?c") simp_all
  have nj: "n < 256 ^ Suc j" using n j by simp
  have wj: "2 * Suc j \<le> 16" using vb j by simp
  have bn: "bytes = be_bytes (Suc j) n"
    using bytes_of_preview[OF nj wj, of True] by (simp add: b h j)
  have lb: "length bytes = Suc j" by (simp add: bn length_be_bytes)
  have t: "?t = format_hex False (2 * Suc j) n"
    by (simp only: bn hex_of_be_bytes[OF nj])
  have th: "list_all is_hex_char ?t" by (rule fromLatin1_toHex_hex)
  have tn: "?t \<noteq> []" by (simp add: t format_hex_nonempty)
  have tr: "remove_spaces ?t = ?t" by (rule remove_spaces_hex[OF th])
  have w2: "2 \<le> 2 * Suc j" by simp
  have small: "(\<exists>k<8. bytes = be_bytes (length bytes) k) \<longleftrightarrow> n < 8"
  proof
    assume "\<exists>k<8. bytes = be_bytes (length bytes) k"
    then obtain k where k: "k < 8" "be_bytes (Suc j) n = be_bytes (Suc j) k"
      using bn lb by auto
    have "k < 256 ^ Suc j"
    proof -
      have "(1::nat) \<le> 256 ^ j" by simp
      then have "(256::nat) * 1 \<le> 256 * 256 ^ j" by (rule mult_le_mono2)
      then show ?thesis unfolding power_Suc using k(1) by linarith
    qed
    then have "n = k" using be_bytes_inject[OF nj _ k(2)] by simp
    then show "n < 8" using k(1) by simp
  next
    assume "n < 8"
    then show "\<exists>k<8. bytes = be_bytes (length bytes) k" using bn lb by auto
  qed
  have en': "m_data_edit ?w' \<noteq> []" using tn by simp
  have sw: "switch_combo_id toFloat toDouble ?c 0 ?t =
           (case parse_magnitude 0 ?t of
              None \<Rightarrow> (False, [])
            | Some m \<Rightarrow>
                if m < value_limit ?c
                then (True, format_hex True (2 * value_bytes ?c) m)
                else (False, []))"
    by (rule switch_radix_0[OF assms(1) th tn])
  show ?thesis
  proof (cases "parse_magnitude 0 ?t")
    case None
    have s': "switch_combo_id toFloat toDouble (m_input_combo ?w')
          (if m_base_check_checked ?w' \<and> is_integer_type (m_input_combo ?w') then 16 else 0)
          (if m_input_combo ?w' \<noteq> ASCII then remove_spaces (m_data_edit ?w')
           else m_data_edit ?w')
        = (False, [])"
      using na sw None tr by simp
    have "GetInputData (ValidateAndPreviewInputValue toFloat toDouble ?w') = []"
      using Validate_nonempty[OF en' s'] by (simp add: GetInputData_def)
    moreover have "\<not> n < 8"
      using parse_magnitude_0_small[OF w2, of n False] None by (auto simp: t)
    ultimately show ?thesis using small assms(3) by auto
  next
    case (Some m)
    have k: "m \<le> n \<and> (m = n \<longrightarrow> n < 8)"
      using parse_magnitude_0_format_hex[OF w2, of False n m] Some by (simp add: t)
    have sm: "n < 8 \<Longrightarrow> m = n"
      using parse_magnitude_0_small[OF w2, of n False] Some by (simp add: t)
    show ?thesis
    proof (cases "m < value_limit ?c")
      case True
      have s': "switch_combo_id toFloat toDouble (m_input_combo ?w')
          (if m_base_check_checked ?w' \<and> is_integer_type (m_input_combo ?w') then 16 else 0)
          (if m_input_combo ?w' \<noteq> ASCII then remove_spaces (m_data_edit ?w')
           else m_data_edit ?w')
        = (True, format_hex True (2 * Suc j) m)"
        using na sw Some True tr j by simp
      have mj: "m < 256 ^ Suc j" using k nj by simp
      have p: "preview_of (format_hex True (2 * Suc j) m) \<noteq> []"
        by (rule preview_of_nonempty) (rule format_hex_nonempty)
      have "GetInputData (ValidateAndPreviewInputValue toFloat toDouble ?w') =
            fromHex (toUtf8 (preview_of (format_hex True (2 * Suc j) m)))"
        using Validate_nonempty[OF en' s'] na p by (simp add: GetInputData_def)
      then have g: "GetInputData (ValidateAndPreviewInputValue toFloat toDouble ?w') =
            be_bytes (Suc j) m"
        by (simp only: bytes_of_preview[OF mj wj])
      have "be_bytes (Suc j) m = be_bytes (Suc j) n \<longleftrightarrow> m = n"
        using be_bytes_inject[OF mj nj] by auto
      then show ?thesis using g bn small k sm by auto
    next
      case False
      have s': "switch_combo_id toFloat toDouble (m_input_combo ?w')
          (if m_base_check_checked ?w' \<and> is_integer_type (m_input_combo ?w') then 16 else 0)
          (if m_input_combo ?w' \<noteq> ASCII then remove_spaces (m_data_edit ?w')
           else m_data_edit ?w')
        = (False, [])"
        using na sw Some False tr by simp
      have "GetInputData (ValidateAndPreviewInputValue toFloat toDouble ?w') = []"
        using Validate_nonempty[OF en' s'] by (simp add: GetInputData_def)
      moreover have "\<not> n < 8" using sm False vb by auto
      ultimately show ?thesis using small assms(3) by auto
    qed
  qed
qed

section \<open>The round trip\<close>

text \<open>
  C4, as amended: for the six integer types, when a text has been accepted and, for the
  signed types, the first byte of the value is below \<open>0x80\<close> (the value is not
  negative), putting the hexadecimal digits of the bytes into the edit field with the check
  box checked is accepted as well and gives the same preview and the same bytes; for the
  signed types and a value whose first byte is \<open>0x80\<close> or above (a negative value) the
  digits are refused.  With the check box unchecked the digits are read with base 0, and the
  same bytes result exactly for the numbers 0 to 7.  For the types FLOAT and DOUBLE the
  digits are read as a decimal numeral: the bytes that result are those of the number that
  the conversion of the library reads from the digits, so they are the same bytes exactly
  when the digits are accepted as a number with these bytes, and the digits are refused
  whenever one of them is a letter other than \<open>e\<close>.
\<close>

theorem hex_round_trip:
  "(is_integer_type (m_input_combo w) \<and>
    GetInputData (ValidateAndPreviewInputValue toFloat toDouble w) = bytes \<and> bytes \<noteq> [] \<and>
    (m_input_combo w = S8 \<or> m_input_combo w = S16 \<or> m_input_combo w = S32 \<longrightarrow>
       hd bytes < 0x80) \<longrightarrow>
      GetInputData (ValidateAndPreviewInputValue toFloat toDouble
         (w\<lparr>m_data_edit := fromLatin1 (toHex bytes), m_base_check_checked := True\<rparr>)) = bytes \<and>
      m_data_preview (ValidateAndPreviewInputValue toFloat toDouble
         (w\<lparr>m_data_edit := fromLatin1 (toHex bytes), m_base_check_checked := True\<rparr>)) =
        m_data_preview (ValidateAndPreviewInputValue toFloat toDouble w) \<and>
      \<not> m_data_edit_bold_red (ValidateAndPreviewInputValue toFloat toDouble
         (w\<lparr>m_data_edit := fromLatin1 (toHex bytes), m_base_check_checked := True\<rparr>))) \<and>
   ((m_input_combo w = S8 \<or> m_input_combo w = S16 \<or> m_input_combo w = S32) \<and>
    GetInputData (ValidateAndPreviewInputValue toFloat toDouble w) = bytes \<and> bytes \<noteq> [] \<and>
    \<not> hd bytes < 0x80 \<longrightarrow>
      GetInputData (ValidateAndPreviewInputValue toFloat toDouble
         (w\<lparr>m_data_edit := fromLatin1 (toHex bytes), m_base_check_checked := True\<rparr>)) = [] \<and>
      m_data_preview (ValidateAndPreviewInputValue toFloat toDouble
         (w\<lparr>m_data_edit := fromLatin1 (toHex bytes), m_base_check_checked := True\<rparr>)) = [] \<and>
      m_data_edit_bold_red (ValidateAndPreviewInputValue toFloat toDouble
         (w\<lparr>m_data_edit := fromLatin1 (toHex bytes), m_base_check_checked := True\<rparr>))) \<and>
   (is_integer_type (m_input_combo w) \<and>
    GetInputData (ValidateAndPreviewInputValue toFloat toDouble w) = bytes \<and> bytes \<noteq> [] \<longrightarrow>
      (GetInputData (ValidateAndPreviewInputValue toFloat toDouble
         (w\<lparr>m_data_edit := fromLatin1 (toHex bytes), m_base_check_checked := False\<rparr>)) =
         bytes \<longleftrightarrow>
       (\<exists>k<8. bytes = be_bytes (length bytes) k))) \<and>
   (m_input_combo w = FLOAT \<and> bytes \<noteq> [] \<longrightarrow>
      GetInputData (ValidateAndPreviewInputValue toFloat toDouble
         (w\<lparr>m_data_edit := fromLatin1 (toHex bytes)\<rparr>)) =
        (if fst (toFloat (fromLatin1 (toHex bytes)))
         then be_bytes 4 (unat (snd (toFloat (fromLatin1 (toHex bytes))))) else []) \<and>
      (GetInputData (ValidateAndPreviewInputValue toFloat toDouble
         (w\<lparr>m_data_edit := fromLatin1 (toHex bytes)\<rparr>)) = bytes \<longleftrightarrow>
       fst (toFloat (fromLatin1 (toHex bytes))) \<and>
       be_bytes 4 (unat (snd (toFloat (fromLatin1 (toHex bytes))))) = bytes)) \<and>
   (m_input_combo w = DOUBLE \<and> bytes \<noteq> [] \<longrightarrow>
      GetInputData (ValidateAndPreviewInputValue toFloat toDouble
         (w\<lparr>m_data_edit := fromLatin1 (toHex bytes)\<rparr>)) =
        (if fst (toDouble (fromLatin1 (toHex bytes)))
         then be_bytes 8 (unat (snd (toDouble (fromLatin1 (toHex bytes))))) else []) \<and>
      (GetInputData (ValidateAndPreviewInputValue toFloat toDouble
         (w\<lparr>m_data_edit := fromLatin1 (toHex bytes)\<rparr>)) = bytes \<longleftrightarrow>
       fst (toDouble (fromLatin1 (toHex bytes))) \<and>
       be_bytes 8 (unat (snd (toDouble (fromLatin1 (toHex bytes))))) = bytes)) \<and>
   ((m_input_combo w = FLOAT \<or> m_input_combo w = DOUBLE) \<and> bytes \<noteq> [] \<and>
    (\<exists>c \<in> set (fromLatin1 (toHex bytes)). \<not> is_float_char c) \<longrightarrow>
      GetInputData (ValidateAndPreviewInputValue (QString_toFloat convf) (QString_toFloat convd)
         (w\<lparr>m_data_edit := fromLatin1 (toHex bytes)\<rparr>)) = [] \<and>
      m_data_preview (ValidateAndPreviewInputValue (QString_toFloat convf) (QString_toFloat convd)
         (w\<lparr>m_data_edit := fromLatin1 (toHex bytes)\<rparr>)) = [] \<and>
      m_data_edit_bold_red (ValidateAndPreviewInputValue (QString_toFloat convf)
         (QString_toFloat convd) (w\<lparr>m_data_edit := fromLatin1 (toHex bytes)\<rparr>)))"
proof (intro conjI impI)
  let ?t = "fromLatin1 (toHex bytes)"
  let ?w' = "w\<lparr>m_data_edit := ?t, m_base_check_checked := True\<rparr>"
  assume h: "is_integer_type (m_input_combo w) \<and>
    GetInputData (ValidateAndPreviewInputValue toFloat toDouble w) = bytes \<and> bytes \<noteq> [] \<and>
    (m_input_combo w = S8 \<or> m_input_combo w = S16 \<or> m_input_combo w = S32 \<longrightarrow>
       hd bytes < 0x80)"
  then have r: "GetInputData (ValidateAndPreviewInputValue toFloat toDouble ?w') = bytes \<and>
      m_data_preview (ValidateAndPreviewInputValue toFloat toDouble ?w') =
        m_data_preview (ValidateAndPreviewInputValue toFloat toDouble w) \<and>
      \<not> m_data_edit_bold_red (ValidateAndPreviewInputValue toFloat toDouble ?w')"
    by (intro round_trip_accepted) simp_all
  show "GetInputData (ValidateAndPreviewInputValue toFloat toDouble ?w') = bytes"
    using r by blast
  show "m_data_preview (ValidateAndPreviewInputValue toFloat toDouble ?w') =
        m_data_preview (ValidateAndPreviewInputValue toFloat toDouble w)"
    using r by blast
  show "\<not> m_data_edit_bold_red (ValidateAndPreviewInputValue toFloat toDouble ?w')"
    using r by blast
next
  let ?t = "fromLatin1 (toHex bytes)"
  let ?w' = "w\<lparr>m_data_edit := ?t, m_base_check_checked := True\<rparr>"
  assume h: "(m_input_combo w = S8 \<or> m_input_combo w = S16 \<or> m_input_combo w = S32) \<and>
    GetInputData (ValidateAndPreviewInputValue toFloat toDouble w) = bytes \<and> bytes \<noteq> [] \<and>
    \<not> hd bytes < 0x80"
  then have r: "ValidateAndPreviewInputValue toFloat toDouble ?w' =
         w\<lparr>m_data_edit := ?t, m_base_check_checked := True,
           m_data_preview := [], m_base_check_enabled := True, m_data_edit_bold_red := True\<rparr>"
    by (intro round_trip_refused) simp_all
  show "GetInputData (ValidateAndPreviewInputValue toFloat toDouble ?w') = []"
    by (simp add: r GetInputData_def)
  show "m_data_preview (ValidateAndPreviewInputValue toFloat toDouble ?w') = []"
    by (simp add: r)
  show "m_data_edit_bold_red (ValidateAndPreviewInputValue toFloat toDouble ?w')"
    by (simp add: r)
next
  assume "is_integer_type (m_input_combo w) \<and>
    GetInputData (ValidateAndPreviewInputValue toFloat toDouble w) = bytes \<and> bytes \<noteq> []"
  then show "GetInputData (ValidateAndPreviewInputValue toFloat toDouble
         (w\<lparr>m_data_edit := fromLatin1 (toHex bytes), m_base_check_checked := False\<rparr>)) =
         bytes \<longleftrightarrow>
       (\<exists>k<8. bytes = be_bytes (length bytes) k)"
    by (intro round_trip_unchecked) simp_all
next
  let ?t = "fromLatin1 (toHex bytes)"
  assume h: "m_input_combo w = FLOAT \<and> bytes \<noteq> []"
  have tn: "?t \<noteq> []" using h length_fromLatin1_toHex[of bytes] by auto
  have tr: "remove_spaces ?t = ?t"
    by (rule remove_spaces_hex) (rule fromLatin1_toHex_hex)
  show e: "GetInputData (ValidateAndPreviewInputValue toFloat toDouble (w\<lparr>m_data_edit := ?t\<rparr>)) =
        (if fst (toFloat ?t) then be_bytes 4 (unat (snd (toFloat ?t))) else [])"
    using Validate_FLOAT[of "w\<lparr>m_data_edit := ?t\<rparr>" toFloat toDouble] h tn
    by (simp add: tr)
  show "GetInputData (ValidateAndPreviewInputValue toFloat toDouble (w\<lparr>m_data_edit := ?t\<rparr>)) =
          bytes \<longleftrightarrow>
        fst (toFloat ?t) \<and> be_bytes 4 (unat (snd (toFloat ?t))) = bytes"
    using h by (auto simp: e)
next
  let ?t = "fromLatin1 (toHex bytes)"
  assume h: "m_input_combo w = DOUBLE \<and> bytes \<noteq> []"
  have tn: "?t \<noteq> []" using h length_fromLatin1_toHex[of bytes] by auto
  have tr: "remove_spaces ?t = ?t"
    by (rule remove_spaces_hex) (rule fromLatin1_toHex_hex)
  show e: "GetInputData (ValidateAndPreviewInputValue toFloat toDouble (w\<lparr>m_data_edit := ?t\<rparr>)) =
        (if fst (toDouble ?t) then be_bytes 8 (unat (snd (toDouble ?t))) else [])"
    using Validate_DOUBLE[of "w\<lparr>m_data_edit := ?t\<rparr>" toFloat toDouble] h tn
    by (simp add: tr)
  show "GetInputData (ValidateAndPreviewInputValue toFloat toDouble (w\<lparr>m_data_edit := ?t\<rparr>)) =
          bytes \<longleftrightarrow>
        fst (toDouble ?t) \<and> be_bytes 8 (unat (snd (toDouble ?t))) = bytes"
    using h by (auto simp: e)
next
  let ?t = "fromLatin1 (toHex bytes)"
  let ?V = "ValidateAndPreviewInputValue (QString_toFloat convf) (QString_toFloat convd)
         (w\<lparr>m_data_edit := ?t\<rparr>)"
  assume h: "(m_input_combo w = FLOAT \<or> m_input_combo w = DOUBLE) \<and> bytes \<noteq> [] \<and>
    (\<exists>c \<in> set ?t. \<not> is_float_char c)"
  then have r: "?V = w\<lparr>m_data_edit := ?t, m_data_preview := [],
           m_base_check_enabled := False, m_data_edit_bold_red := True\<rparr>"
    by (intro float_digits_refused) simp_all
  show "GetInputData ?V = []" by (simp add: r GetInputData_def)
  show "m_data_preview ?V = []" by (simp add: r)
  show "m_data_edit_bold_red ?V" by (simp add: r)
qed


section \<open>Examples of the round trip\<close>

lemma accepted_example:
  assumes "m_data_edit w \<noteq> []" "m_input_combo w \<noteq> ASCII" "m_input_combo w \<noteq> HEXSTR"
      and "switch_combo_id toFloat toDouble (m_input_combo w)
             (if m_base_check_checked w \<and> is_integer_type (m_input_combo w) then 16 else 0)
             (remove_spaces (m_data_edit w)) = (True, hex_string)"
      and "preview_of hex_string = preview" "preview \<noteq> []"
      and "fromHex (toUtf8 preview) = bytes"
  shows "GetInputData (ValidateAndPreviewInputValue toFloat toDouble w) = bytes"
proof -
  have s: "switch_combo_id toFloat toDouble (m_input_combo w)
             (if m_base_check_checked w \<and> is_integer_type (m_input_combo w) then 16 else 0)
             (if m_input_combo w \<noteq> ASCII then remove_spaces (m_data_edit w) else m_data_edit w)
           = (True, hex_string)"
    using assms(2,4) by simp
  show ?thesis
    using Validate_nonempty[OF assms(1) s] assms(2,3,5,6,7) by (simp add: GetInputData_def)
qed

lemma refused_example:
  assumes "m_data_edit w \<noteq> []" "m_input_combo w \<noteq> ASCII"
      and "switch_combo_id toFloat toDouble (m_input_combo w)
             (if m_base_check_checked w \<and> is_integer_type (m_input_combo w) then 16 else 0)
             (remove_spaces (m_data_edit w)) = (False, hex_string)"
  shows "GetInputData (ValidateAndPreviewInputValue toFloat toDouble w) = []"
proof -
  have s: "switch_combo_id toFloat toDouble (m_input_combo w)
             (if m_base_check_checked w \<and> is_integer_type (m_input_combo w) then 16 else 0)
             (if m_input_combo w \<noteq> ASCII then remove_spaces (m_data_edit w) else m_data_edit w)
           = (False, hex_string)"
    using assms(2,3) by simp
  show ?thesis
    using Validate_nonempty[OF assms(1) s] by (simp add: GetInputData_def)
qed

lemma remove_spaces_examples:
  "remove_spaces (qstr ''4660'') = qstr ''4660''"
  "remove_spaces (qstr ''-1'') = qstr ''-1''"
  "remove_spaces (qstr ''ff'') = qstr ''ff''"
  "remove_spaces (qstr ''16'') = qstr ''16''"
  "remove_spaces (qstr ''10'') = qstr ''10''"
  "remove_spaces (qstr ''3.14'') = qstr ''3.14''"
  "remove_spaces (qstr ''4048f5c3'') = qstr ''4048f5c3''"
  "remove_spaces (qstr ''40091eb851eb851f'') = qstr ''40091eb851eb851f''"
  by (simp_all add: remove_spaces_def qstr_def)

lemma U16_4660: 
  "GetInputData (ValidateAndPreviewInputValue no_float no_double
      (initial_widget\<lparr>m_input_combo := U16, m_data_edit := qstr ''4660''\<rparr>)) = [0x12, 0x34]"
proof (rule accepted_example)
  let ?w = "initial_widget\<lparr>m_input_combo := U16, m_data_edit := qstr ''4660''\<rparr>"
  show "m_data_edit ?w \<noteq> []" by (simp add: qstr_def)
  show "m_input_combo ?w \<noteq> ASCII" "m_input_combo ?w \<noteq> HEXSTR" by simp_all
  have p: "toUShort (qstr ''4660'') 0 = (True, 4660)" by (simp add: parse_eval)
  have f: "format_hex True 4 4660 = qstr ''1234''" by (simp add: format_eval qstr_def)
  show "switch_combo_id no_float no_double (m_input_combo ?w)
             (if m_base_check_checked ?w \<and> is_integer_type (m_input_combo ?w) then 16 else 0)
             (remove_spaces (m_data_edit ?w)) = (True, qstr ''1234'')"
    by (simp add: initial_widget_def remove_spaces_examples p f)
  show "preview_of (qstr ''1234'') = qstr ''12 34''"
    by (simp add: preview_of_def insert_spaces.simps qinsert_def qstr_def)
  show "qstr ''12 34'' \<noteq> []" by (simp add: qstr_def)
  show "fromHex (toUtf8 (qstr ''12 34'')) = [0x12, 0x34]" by (simp add: to_bytes_eval qstr_def)
qed

lemma S16_minus_1:
  "GetInputData (ValidateAndPreviewInputValue no_float no_double
      (initial_widget\<lparr>m_input_combo := S16, m_data_edit := qstr ''-1''\<rparr>)) = [0xFF, 0xFF]"
proof (rule accepted_example)
  let ?w = "initial_widget\<lparr>m_input_combo := S16, m_data_edit := qstr ''-1''\<rparr>"
  show "m_data_edit ?w \<noteq> []" by (simp add: qstr_def)
  show "m_input_combo ?w \<noteq> ASCII" "m_input_combo ?w \<noteq> HEXSTR" by simp_all
  have p: "toShort (qstr ''-1'') 0 = (True, 0xFFFF)" by (simp add: parse_eval)
  have f: "format_hex True 4 65535 = qstr ''FFFF''" by (simp add: format_eval qstr_def)
  show "switch_combo_id no_float no_double (m_input_combo ?w)
             (if m_base_check_checked ?w \<and> is_integer_type (m_input_combo ?w) then 16 else 0)
             (remove_spaces (m_data_edit ?w)) = (True, qstr ''FFFF'')"
    by (simp add: initial_widget_def remove_spaces_examples p f)
  show "preview_of (qstr ''FFFF'') = qstr ''FF FF''"
    by (simp add: preview_of_def insert_spaces.simps qinsert_def qstr_def)
  show "qstr ''FF FF'' \<noteq> []" by (simp add: qstr_def)
  show "fromHex (toUtf8 (qstr ''FF FF'')) = [0xFF, 0xFF]" by (simp add: to_bytes_eval qstr_def)
qed

theorem hex_round_trip_witness:
  "GetInputData (ValidateAndPreviewInputValue no_float no_double
      (initial_widget\<lparr>m_input_combo := U16, m_data_edit := qstr ''1234'',
                      m_base_check_checked := True\<rparr>)) = [0x12, 0x34] \<and>
   GetInputData (ValidateAndPreviewInputValue no_float no_double
      (initial_widget\<lparr>m_input_combo := S16, m_data_edit := qstr ''ffff'',
                      m_base_check_checked := True\<rparr>)) = [] \<and>
   GetInputData (ValidateAndPreviewInputValue (QString_toFloat float_3_14)
      (QString_toFloat double_3_14)
      (initial_widget\<lparr>m_input_combo := FLOAT, m_data_edit := qstr ''4048f5c3''\<rparr>)) = [] \<and>
   GetInputData (ValidateAndPreviewInputValue no_float no_double
      (initial_widget\<lparr>m_input_combo := U16, m_data_edit := qstr ''1234'',
                      m_base_check_checked := False\<rparr>)) \<noteq> [0x12, 0x34]"
proof -
  let ?u = "initial_widget\<lparr>m_input_combo := U16, m_data_edit := qstr ''4660''\<rparr>"
  let ?s = "initial_widget\<lparr>m_input_combo := S16, m_data_edit := qstr ''-1''\<rparr>"
  let ?f = "initial_widget\<lparr>m_input_combo := FLOAT\<rparr>"
  have t: "fromLatin1 (toHex [0x12, 0x34]) = qstr ''1234''"
    by (simp add: to_bytes_eval qstr_def)
  have "GetInputData (ValidateAndPreviewInputValue no_float no_double
          (?u\<lparr>m_data_edit := fromLatin1 (toHex [0x12, 0x34]), m_base_check_checked := True\<rparr>)) =
        [0x12, 0x34]"
    using hex_round_trip[of ?u no_float no_double "[0x12, 0x34]"] U16_4660
    by (simp add: is_integer_type_def)
  then have 1: "GetInputData (ValidateAndPreviewInputValue no_float no_double
      (initial_widget\<lparr>m_input_combo := U16, m_data_edit := qstr ''1234'',
                      m_base_check_checked := True\<rparr>)) = [0x12, 0x34]"
    by (simp add: t)
  have t2: "fromLatin1 (toHex [0xFF, 0xFF]) = qstr ''ffff''"
    by (simp add: to_bytes_eval qstr_def)
  have "GetInputData (ValidateAndPreviewInputValue no_float no_double
          (?s\<lparr>m_data_edit := fromLatin1 (toHex [0xFF, 0xFF]), m_base_check_checked := True\<rparr>)) = []"
    using hex_round_trip[of ?s no_float no_double "[0xFF, 0xFF]"] S16_minus_1
    by simp
  then have 2: "GetInputData (ValidateAndPreviewInputValue no_float no_double
      (initial_widget\<lparr>m_input_combo := S16, m_data_edit := qstr ''ffff'',
                      m_base_check_checked := True\<rparr>)) = []"
    by (simp add: t2)
  have t3: "fromLatin1 (toHex [0x40, 0x48, 0xF5, 0xC3]) = qstr ''4048f5c3''"
    by (simp add: to_bytes_eval qstr_def)
  have x: "\<exists>c \<in> set (fromLatin1 (toHex [0x40, 0x48, 0xF5, 0xC3])). \<not> is_float_char c"
    by (simp add: t3) (simp add: qstr_def is_float_char_def)
  have "GetInputData (ValidateAndPreviewInputValue (QString_toFloat float_3_14)
      (QString_toFloat double_3_14)
      (?f\<lparr>m_data_edit := fromLatin1 (toHex [0x40, 0x48, 0xF5, 0xC3])\<rparr>)) = []"
    using hex_round_trip[of ?f no_float no_double "[0x40, 0x48, 0xF5, 0xC3]" float_3_14
        double_3_14] x
    by simp
  then have 3: "GetInputData (ValidateAndPreviewInputValue (QString_toFloat float_3_14)
      (QString_toFloat double_3_14)
      (initial_widget\<lparr>m_input_combo := FLOAT, m_data_edit := qstr ''4048f5c3''\<rparr>)) = []"
    by (simp add: t3)
  have nk: "\<not> (\<exists>k<8. [0x12, 0x34] = be_bytes (length [0x12, 0x34 :: 8 word]) k)"
  proof
    assume "\<exists>k<8. [0x12, 0x34] = be_bytes (length [0x12, 0x34 :: 8 word]) k"
    then obtain k where k: "k < 8" "[0x12, 0x34 :: 8 word] = be_bytes 2 k" by auto
    have "k div 256 = 0" using k(1) by simp
    then have "be_bytes 2 k = [0, of_nat (k mod 256)]" by (simp add: numeral_2_eq_2)
    then have "(0x12 :: 8 word) = 0" using k(2) by (simp only: list.inject)
    then show False by simp
  qed
  have "GetInputData (ValidateAndPreviewInputValue no_float no_double
          (?u\<lparr>m_data_edit := fromLatin1 (toHex [0x12, 0x34]), m_base_check_checked := False\<rparr>)) \<noteq>
        [0x12, 0x34]"
    using hex_round_trip[of ?u no_float no_double "[0x12, 0x34]"] U16_4660 nk
    by (simp add: is_integer_type_def)
  then have 4: "GetInputData (ValidateAndPreviewInputValue no_float no_double
      (initial_widget\<lparr>m_input_combo := U16, m_data_edit := qstr ''1234'',
                      m_base_check_checked := False\<rparr>)) \<noteq> [0x12, 0x34]"
    by (simp add: t)
  show ?thesis using 1 2 3 4 by blast
qed


text \<open>
  The signed 8-bit value \<open>-1\<close> has the byte \<open>FF\<close>, and the digits \<open>ff\<close> are refused
  under the same type, with the check box checked (255 is above the signed range) and
  unchecked (no decimal number).  With the check box unchecked the unsigned 8-bit value 16
  has the byte \<open>10\<close>, and the digits \<open>10\<close> are read as ten, the byte \<open>0A\<close>.  The
  number \<open>3.14\<close> has the bytes \<open>40 48 F5 C3\<close> in single and
  \<open>40 09 1E B8 51 EB 85 1F\<close> in double precision, and their digits are no decimal
  numeral.
\<close>

theorem hex_round_trip_counterexample:
  "GetInputData (ValidateAndPreviewInputValue no_float no_double
      (initial_widget\<lparr>m_input_combo := S8, m_data_edit := qstr ''-1''\<rparr>)) = [0xFF] \<and>
   GetInputData (ValidateAndPreviewInputValue no_float no_double
      (initial_widget\<lparr>m_input_combo := S8, m_data_edit := fromLatin1 (toHex [0xFF]),
                      m_base_check_checked := True\<rparr>)) = [] \<and>
   GetInputData (ValidateAndPreviewInputValue no_float no_double
      (initial_widget\<lparr>m_input_combo := S8, m_data_edit := fromLatin1 (toHex [0xFF]),
                      m_base_check_checked := False\<rparr>)) = [] \<and>
   GetInputData (ValidateAndPreviewInputValue no_float no_double
      (initial_widget\<lparr>m_input_combo := U8, m_data_edit := qstr ''16''\<rparr>)) = [0x10] \<and>
   GetInputData (ValidateAndPreviewInputValue no_float no_double
      (initial_widget\<lparr>m_input_combo := U8, m_data_edit := fromLatin1 (toHex [0x10]),
                      m_base_check_checked := False\<rparr>)) = [0x0A] \<and>
   GetInputData (ValidateAndPreviewInputValue (QString_toFloat float_3_14)
      (QString_toFloat double_3_14)
      (initial_widget\<lparr>m_input_combo := FLOAT, m_data_edit := qstr ''3.14''\<rparr>)) =
     [0x40, 0x48, 0xF5, 0xC3] \<and>
   GetInputData (ValidateAndPreviewInputValue (QString_toFloat float_3_14)
      (QString_toFloat double_3_14)
      (initial_widget\<lparr>m_input_combo := FLOAT,
         m_data_edit := fromLatin1 (toHex [0x40, 0x48, 0xF5, 0xC3])\<rparr>)) = [] \<and>
   GetInputData (ValidateAndPreviewInputValue (QString_toFloat float_3_14)
      (QString_toFloat double_3_14)
      (initial_widget\<lparr>m_input_combo := DOUBLE, m_data_edit := qstr ''3.14''\<rparr>)) =
     [0x40, 0x09, 0x1E, 0xB8, 0x51, 0xEB, 0x85, 0x1F] \<and>
   GetInputData (ValidateAndPreviewInputValue (QString_toFloat float_3_14)
      (QString_toFloat double_3_14)
      (initial_widget\<lparr>m_input_combo := DOUBLE,
         m_data_edit := fromLatin1 (toHex [0x40, 0x09, 0x1E, 0xB8, 0x51, 0xEB, 0x85, 0x1F])\<rparr>)) =
     []"
proof -
  let ?F = "QString_toFloat float_3_14"
  let ?D = "QString_toFloat double_3_14"
  have t1: "fromLatin1 (toHex [0xFF]) = qstr ''ff''" by (simp add: to_bytes_eval qstr_def)
  have t2: "fromLatin1 (toHex [0x10]) = qstr ''10''" by (simp add: to_bytes_eval qstr_def)
  have t3: "fromLatin1 (toHex [0x40, 0x48, 0xF5, 0xC3]) = qstr ''4048f5c3''"
    by (simp add: to_bytes_eval qstr_def)
  have t4: "fromLatin1 (toHex [0x40, 0x09, 0x1E, 0xB8, 0x51, 0xEB, 0x85, 0x1F]) =
            qstr ''40091eb851eb851f''"
    by (simp add: to_bytes_eval qstr_def)
  have 1: "GetInputData (ValidateAndPreviewInputValue no_float no_double
      (initial_widget\<lparr>m_input_combo := S8, m_data_edit := qstr ''-1''\<rparr>)) = [0xFF]"
  proof (rule accepted_example)
    let ?w = "initial_widget\<lparr>m_input_combo := S8, m_data_edit := qstr ''-1''\<rparr>"
    show "m_data_edit ?w \<noteq> []" by (simp add: qstr_def)
    show "m_input_combo ?w \<noteq> ASCII" "m_input_combo ?w \<noteq> HEXSTR" by simp_all
    have p: "toShort (qstr ''-1'') 0 = (True, 0xFFFF)" by (simp add: parse_eval)
    have f: "format_hex True 2 255 = qstr ''FF''" by (simp add: format_eval qstr_def)
    show "switch_combo_id no_float no_double (m_input_combo ?w)
             (if m_base_check_checked ?w \<and> is_integer_type (m_input_combo ?w) then 16 else 0)
             (remove_spaces (m_data_edit ?w)) = (True, qstr ''FF'')"
      by (simp add: initial_widget_def remove_spaces_examples p f)
    show "preview_of (qstr ''FF'') = qstr ''FF''"
      by (simp add: preview_of_def insert_spaces.simps qstr_def)
    show "qstr ''FF'' \<noteq> []" by (simp add: qstr_def)
    show "fromHex (toUtf8 (qstr ''FF'')) = [0xFF]" by (simp add: to_bytes_eval qstr_def)
  qed
  have 2: "GetInputData (ValidateAndPreviewInputValue no_float no_double
      (initial_widget\<lparr>m_input_combo := S8, m_data_edit := qstr ''ff'',
                      m_base_check_checked := True\<rparr>)) = []"
  proof (rule refused_example)
    let ?w = "initial_widget\<lparr>m_input_combo := S8, m_data_edit := qstr ''ff'',
                      m_base_check_checked := True\<rparr>"
    show "m_data_edit ?w \<noteq> []" by (simp add: qstr_def)
    show "m_input_combo ?w \<noteq> ASCII" by simp
    have p: "toShort (qstr ''ff'') 16 = (True, 255)" by (simp add: parse_eval)
    show "switch_combo_id no_float no_double (m_input_combo ?w)
             (if m_base_check_checked ?w \<and> is_integer_type (m_input_combo ?w) then 16 else 0)
             (remove_spaces (m_data_edit ?w)) = (False, [])"
      by (simp add: is_integer_type_def remove_spaces_examples p)
  qed
  have 3: "GetInputData (ValidateAndPreviewInputValue no_float no_double
      (initial_widget\<lparr>m_input_combo := S8, m_data_edit := qstr ''ff'',
                      m_base_check_checked := False\<rparr>)) = []"
  proof (rule refused_example)
    let ?w = "initial_widget\<lparr>m_input_combo := S8, m_data_edit := qstr ''ff'',
                      m_base_check_checked := False\<rparr>"
    show "m_data_edit ?w \<noteq> []" by (simp add: qstr_def)
    show "m_input_combo ?w \<noteq> ASCII" by simp
    have p: "toShort (qstr ''ff'') 0 = (False, 0)" by (simp add: parse_eval)
    show "switch_combo_id no_float no_double (m_input_combo ?w)
             (if m_base_check_checked ?w \<and> is_integer_type (m_input_combo ?w) then 16 else 0)
             (remove_spaces (m_data_edit ?w)) = (False, [])"
      by (simp add: remove_spaces_examples p)
  qed
  have 4: "GetInputData (ValidateAndPreviewInputValue no_float no_double
      (initial_widget\<lparr>m_input_combo := U8, m_data_edit := qstr ''16''\<rparr>)) = [0x10]"
  proof (rule accepted_example)
    let ?w = "initial_widget\<lparr>m_input_combo := U8, m_data_edit := qstr ''16''\<rparr>"
    show "m_data_edit ?w \<noteq> []" by (simp add: qstr_def)
    show "m_input_combo ?w \<noteq> ASCII" "m_input_combo ?w \<noteq> HEXSTR" by simp_all
    have p: "toUShort (qstr ''16'') 0 = (True, 16)" by (simp add: parse_eval)
    have f: "format_hex True 2 16 = qstr ''10''" by (simp add: format_eval qstr_def)
    show "switch_combo_id no_float no_double (m_input_combo ?w)
             (if m_base_check_checked ?w \<and> is_integer_type (m_input_combo ?w) then 16 else 0)
             (remove_spaces (m_data_edit ?w)) = (True, qstr ''10'')"
      by (simp add: initial_widget_def remove_spaces_examples p f)
    show "preview_of (qstr ''10'') = qstr ''10''"
      by (simp add: preview_of_def insert_spaces.simps qstr_def)
    show "qstr ''10'' \<noteq> []" by (simp add: qstr_def)
    show "fromHex (toUtf8 (qstr ''10'')) = [0x10]" by (simp add: to_bytes_eval qstr_def)
  qed
  have 5: "GetInputData (ValidateAndPreviewInputValue no_float no_double
      (initial_widget\<lparr>m_input_combo := U8, m_data_edit := qstr ''10'',
                      m_base_check_checked := False\<rparr>)) = [0x0A]"
  proof (rule accepted_example)
    let ?w = "initial_widget\<lparr>m_input_combo := U8, m_data_edit := qstr ''10'',
                      m_base_check_checked := False\<rparr>"
    show "m_data_edit ?w \<noteq> []" by (simp add: qstr_def)
    show "m_input_combo ?w \<noteq> ASCII" "m_input_combo ?w \<noteq> HEXSTR" by simp_all
    have p: "toUShort (qstr ''10'') 0 = (True, 10)" by (simp add: parse_eval)
    have f: "format_hex True 2 10 = qstr ''0A''" by (simp add: format_eval qstr_def)
    show "switch_combo_id no_float no_double (m_input_combo ?w)
             (if m_base_check_checked ?w \<and> is_integer_type (m_input_combo ?w) then 16 else 0)
             (remove_spaces (m_data_edit ?w)) = (True, qstr ''0A'')"
      by (simp add: remove_spaces_examples p f)
    show "preview_of (qstr ''0A'') = qstr ''0A''"
      by (simp add: preview_of_def insert_spaces.simps qstr_def)
    show "qstr ''0A'' \<noteq> []" by (simp add: qstr_def)
    show "fromHex (toUtf8 (qstr ''0A'')) = [0x0A]" by (simp add: to_bytes_eval qstr_def)
  qed
  have ft: "float_text (qstr ''3.14'')"
    by (simp add: float_text_def trimmed_def ascii_isspace_def is_float_char_def qstr_def)
  have nf1: "\<not> float_text (qstr ''4048f5c3'')"
    by (simp add: float_text_def trimmed_def ascii_isspace_def is_float_char_def qstr_def)
  have nf2: "\<not> float_text (qstr ''40091eb851eb851f'')"
    by (simp add: float_text_def trimmed_def ascii_isspace_def is_float_char_def qstr_def)
  have 6: "GetInputData (ValidateAndPreviewInputValue ?F ?D
      (initial_widget\<lparr>m_input_combo := FLOAT, m_data_edit := qstr ''3.14''\<rparr>)) =
     [0x40, 0x48, 0xF5, 0xC3]"
  proof (rule accepted_example)
    let ?w = "initial_widget\<lparr>m_input_combo := FLOAT, m_data_edit := qstr ''3.14''\<rparr>"
    show "m_data_edit ?w \<noteq> []" by (simp add: qstr_def)
    show "m_input_combo ?w \<noteq> ASCII" "m_input_combo ?w \<noteq> HEXSTR" by simp_all
    have p: "?F (qstr ''3.14'') = (True, 0x4048F5C3)"
      by (simp add: QString_toFloat_def ft float_3_14_def)
    have f: "format_hex True 8 1078523331 = qstr ''4048F5C3''"
      by (simp add: format_eval qstr_def)
    show "switch_combo_id ?F ?D (m_input_combo ?w)
             (if m_base_check_checked ?w \<and> is_integer_type (m_input_combo ?w) then 16 else 0)
             (remove_spaces (m_data_edit ?w)) = (True, qstr ''4048F5C3'')"
      by (simp add: remove_spaces_examples p f)
    show "preview_of (qstr ''4048F5C3'') = qstr ''40 48 F5 C3''"
      by (simp add: preview_of_def insert_spaces.simps qinsert_def qstr_def)
    show "qstr ''40 48 F5 C3'' \<noteq> []" by (simp add: qstr_def)
    show "fromHex (toUtf8 (qstr ''40 48 F5 C3'')) = [0x40, 0x48, 0xF5, 0xC3]"
      by (simp add: to_bytes_eval qstr_def)
  qed
  have 7: "GetInputData (ValidateAndPreviewInputValue ?F ?D
      (initial_widget\<lparr>m_input_combo := FLOAT, m_data_edit := qstr ''4048f5c3''\<rparr>)) = []"
  proof (rule refused_example)
    let ?w = "initial_widget\<lparr>m_input_combo := FLOAT, m_data_edit := qstr ''4048f5c3''\<rparr>"
    show "m_data_edit ?w \<noteq> []" by (simp add: qstr_def)
    show "m_input_combo ?w \<noteq> ASCII" by simp
    show "switch_combo_id ?F ?D (m_input_combo ?w)
             (if m_base_check_checked ?w \<and> is_integer_type (m_input_combo ?w) then 16 else 0)
             (remove_spaces (m_data_edit ?w)) = (False, [])"
      by (simp add: remove_spaces_examples QString_toFloat_def nf1)
  qed
  have 8: "GetInputData (ValidateAndPreviewInputValue ?F ?D
      (initial_widget\<lparr>m_input_combo := DOUBLE, m_data_edit := qstr ''3.14''\<rparr>)) =
     [0x40, 0x09, 0x1E, 0xB8, 0x51, 0xEB, 0x85, 0x1F]"
  proof (rule accepted_example)
    let ?w = "initial_widget\<lparr>m_input_combo := DOUBLE, m_data_edit := qstr ''3.14''\<rparr>"
    show "m_data_edit ?w \<noteq> []" by (simp add: qstr_def)
    show "m_input_combo ?w \<noteq> ASCII" "m_input_combo ?w \<noteq> HEXSTR" by simp_all
    have p: "?D (qstr ''3.14'') = (True, 0x40091EB851EB851F)"
      by (simp add: QString_toFloat_def ft double_3_14_def)
    have f: "format_hex True 16 4614253070214989087 = qstr ''40091EB851EB851F''"
      by (simp add: format_eval qstr_def)
    show "switch_combo_id ?F ?D (m_input_combo ?w)
             (if m_base_check_checked ?w \<and> is_integer_type (m_input_combo ?w) then 16 else 0)
             (remove_spaces (m_data_edit ?w)) = (True, qstr ''40091EB851EB851F'')"
      by (simp add: remove_spaces_examples p f)
    show "preview_of (qstr ''40091EB851EB851F'') = qstr ''40 09 1E B8 51 EB 85 1F''"
      by (simp add: preview_of_def insert_spaces.simps qinsert_def qstr_def)
    show "qstr ''40 09 1E B8 51 EB 85 1F'' \<noteq> []" by (simp add: qstr_def)
    show "fromHex (toUtf8 (qstr ''40 09 1E B8 51 EB 85 1F'')) =
          [0x40, 0x09, 0x1E, 0xB8, 0x51, 0xEB, 0x85, 0x1F]"
      by (simp add: to_bytes_eval qstr_def)
  qed
  have 9: "GetInputData (ValidateAndPreviewInputValue ?F ?D
      (initial_widget\<lparr>m_input_combo := DOUBLE, m_data_edit := qstr ''40091eb851eb851f''\<rparr>)) = []"
  proof (rule refused_example)
    let ?w = "initial_widget\<lparr>m_input_combo := DOUBLE,
                m_data_edit := qstr ''40091eb851eb851f''\<rparr>"
    show "m_data_edit ?w \<noteq> []" by (simp add: qstr_def)
    show "m_input_combo ?w \<noteq> ASCII" by simp
    show "switch_combo_id ?F ?D (m_input_combo ?w)
             (if m_base_check_checked ?w \<and> is_integer_type (m_input_combo ?w) then 16 else 0)
             (remove_spaces (m_data_edit ?w)) = (False, [])"
      by (simp add: remove_spaces_examples QString_toFloat_def nf2)
  qed
  show ?thesis using 1 2 3 4 5 6 7 8 9 by (simp only: t1 t2 t3 t4)
qed

section \<open>Values of more than 8 bytes\<close>













section \<open>The start of the search\<close>










section \<open>The search of the examples\<close>
















end
